theory Spec2Isabelle
  imports Main "HOL-Library.AList" "HOL-Library.Sublist" "HOL-Library.Char_ord"
    "HOL-Library.List_Lexorder" "HOL-Library.Product_Lexorder" "HOL-Library.Multiset"
begin

section \<open>Diagonal Sudoku solver (AIND-Sudoku/solution.py)\<close>

text \<open>
  A shallow embedding of \<^verbatim>\<open>src/AIND-Sudoku/solution.py\<close>.

  \<^item> A Python \<^verbatim>\<open>str\<close> is a \<open>string\<close>; a box label such as \<^verbatim>\<open>'A1'\<close> is the
    two-character string \<open>''A1''\<close>, a candidate string such as \<^verbatim>\<open>'1379'\<close> is \<open>''1379''\<close>.
  \<^item> A Python \<^verbatim>\<open>dict\<close> is an association list in insertion order
    (\<open>values.keys()\<close> is \<open>map fst\<close>); reading a missing key raises \<^verbatim>\<open>KeyError\<close>.
  \<^item> Exceptions are values: every function that can raise returns \<open>error + 'a\<close>.
  \<^item> The module-level list \<^verbatim>\<open>assignments\<close> is threaded through every function that
    reaches \<^verbatim>\<open>assign_value\<close>: a state is the pair \<open>(values, assignments)\<close>.
\<close>

subsection \<open>Python values, dictionaries and strings\<close>

datatype error = AssertionError | KeyError string | ValueError

type_synonym grid = "(string \<times> string) list"

type_synonym state = "grid \<times> grid list"

text \<open>What \<^verbatim>\<open>reduce_puzzle\<close> and \<^verbatim>\<open>search\<close> return: a dictionary, \<^verbatim>\<open>False\<close>, or
  (falling off the end of \<^verbatim>\<open>search\<close>) \<^verbatim>\<open>None\<close>.\<close>

datatype pyval = PyNone | PyFalse | PyDict grid

text \<open>Truth value of a Python object: \<^verbatim>\<open>None\<close>, \<^verbatim>\<open>False\<close> and the empty dictionary are false.\<close>

fun truthy :: "pyval \<Rightarrow> bool" where
  "truthy PyNone = False"
| "truthy PyFalse = False"
| "truthy (PyDict d) = (d \<noteq> [])"

definition keys :: "(string \<times> 'v) list \<Rightarrow> string list" where
  "keys d = map fst d"

text \<open>\<^verbatim>\<open>d[k]\<close> as an expression.\<close>

definition getitem :: "(string \<times> 'v) list \<Rightarrow> string \<Rightarrow> error + 'v" where
  "getitem d k = (case map_of d k of None \<Rightarrow> Inl (KeyError k) | Some x \<Rightarrow> Inr x)"

text \<open>\<^verbatim>\<open>d[k] = x\<close>: an existing key keeps its position, a new key goes last.\<close>

definition setitem :: "(string \<times> 'v) list \<Rightarrow> string \<Rightarrow> 'v \<Rightarrow> (string \<times> 'v) list" where
  "setitem d k x = AList.update k x d"

text \<open>\<^verbatim>\<open>dict(pairs)\<close>.\<close>

definition py_dict :: "(string \<times> 'v) list \<Rightarrow> (string \<times> 'v) list" where
  "py_dict pairs = fold (\<lambda>(k, x) d. setitem d k x) pairs []"

text \<open>\<^verbatim>\<open>s.replace(old, '')\<close>: the occurrences of \<open>old\<close> are found from the left and do not
  overlap; an empty \<open>old\<close> replaced by the empty string leaves \<open>s\<close> as it is.\<close>

function str_remove :: "string \<Rightarrow> string \<Rightarrow> string" where
  "str_remove old [] = []"
| "str_remove old (c # s) =
     (if old = [] then c # s
      else if prefix old (c # s) then str_remove old (drop (length old) (c # s))
      else c # str_remove old s)"
  by pat_completeness auto
termination
  by (relation "measure (\<lambda>(old, s). length s)") auto

text \<open>A \<^verbatim>\<open>for\<close> loop whose body updates the state and may raise.\<close>

fun for_each :: "'a list \<Rightarrow> ('a \<Rightarrow> 's \<Rightarrow> error + 's) \<Rightarrow> 's \<Rightarrow> error + 's" where
  "for_each [] body s = Inr s"
| "for_each (x # xs) body s =
     (case body x s of Inl e \<Rightarrow> Inl e | Inr s' \<Rightarrow> for_each xs body s')"

text \<open>A list comprehension \<^verbatim>\<open>[f(x) for x in xs]\<close> whose element expression may raise.\<close>

fun collect :: "('a \<Rightarrow> error + 'b) \<Rightarrow> 'a list \<Rightarrow> error + 'b list" where
  "collect f [] = Inr []"
| "collect f (x # xs) =
     (case f x of Inl e \<Rightarrow> Inl e
      | Inr y \<Rightarrow> (case collect f xs of Inl e \<Rightarrow> Inl e | Inr ys \<Rightarrow> Inr (y # ys)))"

text \<open>\<^verbatim>\<open>min(xs)\<close>: the first least element; \<^verbatim>\<open>ValueError\<close> on an empty sequence. Tuples
  \<open>(n, s)\<close> compare lexicographically, strings by code point (the orders of
  \<open>Product_Lexorder\<close>, \<open>List_Lexorder\<close> and \<open>Char_ord\<close>).\<close>

definition py_min :: "('a::linorder) list \<Rightarrow> error + 'a" where
  "py_min xs = (case xs of [] \<Rightarrow> Inl ValueError
                | x # rest \<Rightarrow> Inr (fold (\<lambda>y best. if y < best then y else best) rest x))"

subsection \<open>The constraint topology\<close>

definition S :: string where "S = ''123456789''"
definition ABCDEFGHI :: string where "ABCDEFGHI = ''ABCDEFGHI''"
definition rows :: string where "rows = ABCDEFGHI"
definition cols :: string where "cols = S"

text \<open>\<^verbatim>\<open>[s + t for s in a for t in b]\<close>; every call passes two strings, whose elements are
  one-character strings.\<close>

definition cross :: "string \<Rightarrow> string \<Rightarrow> string list" where
  "cross a b = concat (map (\<lambda>s. map (\<lambda>t. [s, t]) b) a)"

definition r_string :: "string \<Rightarrow> string" where
  "r_string expression = rev expression"

definition boxes :: "string list" where
  "boxes = cross rows cols"

definition row_units :: "string list list" where
  "row_units = map (\<lambda>r. cross [r] cols) rows"

definition column_units :: "string list list" where
  "column_units = map (\<lambda>c. cross rows [c]) cols"

text \<open>\<^verbatim>\<open>range(0, n, step)\<close>.\<close>

definition py_range :: "nat \<Rightarrow> nat \<Rightarrow> nat list" where
  "py_range n step = map (\<lambda>k. k * step) [0 ..< (n + step - 1) div step]"

definition get_square_units :: "nat \<Rightarrow> string list list" where
  "get_square_units sq =
     (let prows = map (\<lambda>i. take sq (drop i rows)) (py_range (length rows) sq);
          pcols = map (\<lambda>i. take sq (drop i cols)) (py_range (length cols) sq)
      in concat (map (\<lambda>rs. map (\<lambda>cs. cross rs cs) pcols) prows))"

definition square_units :: "string list list" where
  "square_units = get_square_units 3"

definition diagonals_u :: "string list list" where
  "diagonals_u = [map (\<lambda>(a, b). [a, b]) (zip rows cols),
                  map (\<lambda>(a, b). [a, b]) (zip rows (r_string cols))]"

definition unitlist :: "string list list" where
  "unitlist = row_units @ column_units @ square_units @ diagonals_u"

text \<open>\<^verbatim>\<open>units = dict((s, [u for u in unitlist if s in u]) for s in boxes)\<close>.\<close>

definition units_of :: "string \<Rightarrow> string list list" where
  "units_of s = filter (\<lambda>u. s \<in> set u) unitlist"

definition units :: "(string \<times> string list list) list" where
  "units = py_dict (map (\<lambda>s. (s, units_of s)) boxes)"

text \<open>\<^verbatim>\<open>peers = dict((s, set(sum(units[s], [])) - {s}) for s in boxes)\<close>. For \<open>s\<close> in
  \<open>boxes\<close>, \<^verbatim>\<open>units[s]\<close> is the entry just built, \<open>units_of s\<close>. A Python set has no
  specified iteration order; the model fixes one enumeration of each peer set.\<close>

definition peers_of :: "string \<Rightarrow> string list" where
  "peers_of s = remdups (removeAll s (concat (units_of s)))"

definition peers :: "(string \<times> string list) list" where
  "peers = py_dict (map (\<lambda>s. (s, peers_of s)) boxes)"

subsection \<open>Assignment and the three propagation rules\<close>

text \<open>\<^verbatim>\<open>assign_value(values, box, value)\<close>: stores the string, appends a copy of the
  dictionary to \<^verbatim>\<open>assignments\<close> when the string has length one, and returns the dictionary.\<close>

definition assign_value :: "grid \<Rightarrow> string \<Rightarrow> string \<Rightarrow> grid list \<Rightarrow> state" where
  "assign_value values box value assignments =
     (let values' = setitem values box value
      in (values', if length value = 1 then assignments @ [values'] else assignments))"

text \<open>\<^verbatim>\<open>[box for box in values.keys() if len(values[box]) == n]\<close>. The key comes from the
  dictionary itself, so the read cannot raise.\<close>

definition boxes_with_len :: "grid \<Rightarrow> nat \<Rightarrow> string list" where
  "boxes_with_len values n =
     filter (\<lambda>box. case map_of values box of Some x \<Rightarrow> length x = n | None \<Rightarrow> False) (keys values)"

text \<open>The innermost statement of \<^verbatim>\<open>naked_twins\<close>.\<close>

definition naked_twins_box :: "string \<Rightarrow> char \<Rightarrow> string \<Rightarrow> state \<Rightarrow> error + state" where
  "naked_twins_box numbers number box = (\<lambda>(values, assignments).
     case getitem values box of Inl e \<Rightarrow> Inl e
     | Inr cur \<Rightarrow>
         if cur \<noteq> numbers
         then Inr (assign_value values box (str_remove [number] cur) assignments)
         else Inr (values, assignments))"

text \<open>The body of the loop over \<^verbatim>\<open>unitlist\<close> in \<^verbatim>\<open>naked_twins\<close>.\<close>

definition naked_twins_unit :: "string list \<Rightarrow> state \<Rightarrow> error + state" where
  "naked_twins_unit unit = (\<lambda>(values, assignments).
     case collect (getitem values) unit of Inl e \<Rightarrow> Inl e
     | Inr unit_v \<Rightarrow>
         let twins_num = filter (\<lambda>data. count_list unit_v data = 2 \<and> length data = 2) unit_v
         in for_each twins_num
              (\<lambda>numbers. for_each numbers (\<lambda>number. for_each unit (naked_twins_box numbers number)))
              (values, assignments))"

definition naked_twins :: "state \<Rightarrow> error + state" where
  "naked_twins = for_each unitlist naked_twins_unit"

text \<open>The statement inside the loop over \<^verbatim>\<open>peers[box]\<close> in \<^verbatim>\<open>eliminate\<close>.\<close>

definition eliminate_peer :: "string \<Rightarrow> string \<Rightarrow> state \<Rightarrow> error + state" where
  "eliminate_peer digit peer = (\<lambda>(values, assignments).
     case getitem values peer of Inl e \<Rightarrow> Inl e
     | Inr cur \<Rightarrow> Inr (assign_value values peer (str_remove digit cur) assignments))"

text \<open>The body of the loop over \<^verbatim>\<open>s_values\<close> in \<^verbatim>\<open>eliminate\<close>.\<close>

definition eliminate_box :: "string \<Rightarrow> state \<Rightarrow> error + state" where
  "eliminate_box box = (\<lambda>(values, assignments).
     case getitem values box of Inl e \<Rightarrow> Inl e
     | Inr digit \<Rightarrow>
         (case getitem peers box of Inl e \<Rightarrow> Inl e
          | Inr ps \<Rightarrow> for_each ps (eliminate_peer digit) (values, assignments)))"

text \<open>\<^verbatim>\<open>eliminate\<close> with the order in which the solved boxes are processed made a
  parameter; \<^verbatim>\<open>eliminate\<close> itself processes them in key order.\<close>

definition eliminate_in :: "string list \<Rightarrow> state \<Rightarrow> error + state" where
  "eliminate_in s_values = for_each s_values eliminate_box"

definition eliminate :: "state \<Rightarrow> error + state" where
  "eliminate = (\<lambda>(values, assignments).
     eliminate_in (boxes_with_len values 1) (values, assignments))"

text \<open>The body of the loop over \<^verbatim>\<open>cols\<close> in \<^verbatim>\<open>only_choice\<close>.\<close>

definition only_choice_digit :: "string list \<Rightarrow> char \<Rightarrow> state \<Rightarrow> error + state" where
  "only_choice_digit unit digit = (\<lambda>(values, assignments).
     case collect (\<lambda>box. case getitem values box of Inl e \<Rightarrow> Inl e
                          | Inr x \<Rightarrow> Inr (box, digit \<in> set x)) unit of
       Inl e \<Rightarrow> Inl e
     | Inr marked \<Rightarrow>
         let dplaces = map fst (filter snd marked)
         in if length dplaces = 1
            then Inr (assign_value values (hd dplaces) [digit] assignments)
            else Inr (values, assignments))"

definition only_choice :: "state \<Rightarrow> error + state" where
  "only_choice = for_each unitlist (\<lambda>unit. for_each cols (only_choice_digit unit))"
subsection \<open>Candidate strings only shrink\<close>

definition shrinks :: "grid \<Rightarrow> grid \<Rightarrow> bool" where
  "shrinks v v' = list_all2 (\<lambda>p q. fst q = fst p \<and> subseq (snd q) (snd p)) v v'"

definition total :: "grid \<Rightarrow> nat" where
  "total v = sum_list (map (\<lambda>p. length (snd p)) v)"

text \<open>What every statement of the propagation rules does to a state: candidate strings only
  lose characters, the log only grows, and it grows only when some box is left with at most one
  candidate.\<close>

definition step_ok :: "state \<Rightarrow> state \<Rightarrow> bool" where
  "step_ok s s' =
     (shrinks (fst s) (fst s') \<and> prefix (snd s) (snd s') \<and>
      (snd s' = snd s \<or> (\<exists>p \<in> set (fst s'). length (snd p) \<le> 1)))"

lemma shrinks_refl: "shrinks v v"
  by (simp add: shrinks_def list_all2_refl)

lemma shrinks_trans: "shrinks a b \<Longrightarrow> shrinks b c \<Longrightarrow> shrinks a c"
  unfolding shrinks_def
  by (rule list_all2_trans[where ?P1.0 = "\<lambda>p q. fst q = fst p \<and> subseq (snd q) (snd p)"
        and ?P2.0 = "\<lambda>p q. fst q = fst p \<and> subseq (snd q) (snd p)"])
    (auto intro: subseq_order.trans)

lemma shrinks_keys: "shrinks v v' \<Longrightarrow> keys v' = keys v"
  unfolding shrinks_def keys_def
  by (induction v v' rule: list_all2_induct) auto

lemma shrinks_total_le: "shrinks v v' \<Longrightarrow> total v' \<le> total v"
  unfolding shrinks_def total_def
  by (induction v v' rule: list_all2_induct) (auto dest: list_emb_length)

lemma shrinks_total_eq: "shrinks v v' \<Longrightarrow> total v' = total v \<Longrightarrow> v' = v"
  unfolding shrinks_def
proof (induction v v' rule: list_all2_induct)
  case Nil
  then show ?case by simp
next
  case (Cons p ps q qs)
  have le1: "length (snd q) \<le> length (snd p)"
    using Cons.hyps(1) by (auto dest: list_emb_length)
  have le2: "total qs \<le> total ps"
    using Cons.hyps(2) by (simp add: shrinks_total_le shrinks_def)
  from Cons.prems have "length (snd q) + total qs = length (snd p) + total ps"
    by (simp add: total_def)
  with le1 le2 have eq: "length (snd q) = length (snd p)" "total qs = total ps"
    by arith+
  from eq(1) Cons.hyps(1) have "snd q = snd p"
    by (auto intro: subseq_same_length)
  with Cons.hyps(1) have "q = p"
    by (simp add: prod_eq_iff)
  with Cons.IH eq(2) show ?case by simp
qed

lemma shrinks_update:
  "map_of v k = Some x \<Longrightarrow> subseq x' x \<Longrightarrow> shrinks v (AList.update k x' v)"
  unfolding shrinks_def
  by (induction v) (auto simp: list_all2_refl split: if_splits)

lemma subseq_str_remove: "subseq (str_remove old s) s"
proof (induction old s rule: str_remove.induct)
  case (1 old)
  then show ?case by simp
next
  case (2 old c s)
  show ?case
  proof (cases "old = []")
    case True
    then show ?thesis by simp
  next
    case False
    show ?thesis
    proof (cases "prefix old (c # s)")
      case True
      have "subseq (drop (length old) (c # s)) (c # s)"
        by (rule suffix_imp_subseq) (rule suffix_drop)
      with "2.IH"(1)[OF False True] have "subseq (str_remove old (drop (length old) (c # s))) (c # s)"
        by (rule subseq_order.trans)
      with False True show ?thesis by simp
    next
      case np: False
      with False "2.IH"(2) show ?thesis by simp
    qed
  qed
qed

lemma step_ok_refl: "step_ok s s"
  by (simp add: step_ok_def shrinks_refl)

lemma shrinks_short:
  assumes "shrinks v v'" and "p \<in> set v" and "length (snd p) \<le> 1"
  shows "\<exists>q \<in> set v'. length (snd q) \<le> 1"
proof -
  from assms(2) obtain i where i: "i < length v" "v ! i = p"
    by (auto simp: in_set_conv_nth)
  from assms(1) have len: "length v = length v'"
    unfolding shrinks_def by (rule list_all2_lengthD)
  from assms(1) i(1) have "subseq (snd (v' ! i)) (snd (v ! i))"
    unfolding shrinks_def by (auto dest: list_all2_nthD)
  then have "length (snd (v' ! i)) \<le> length (snd p)"
    using i(2) by (auto dest: list_emb_length)
  with assms(3) i(1) len show ?thesis
    by (intro bexI[of _ "v' ! i"]) auto
qed

lemma step_ok_trans:
  assumes ab: "step_ok a b" and bc: "step_ok b c"
  shows "step_ok a c"
proof -
  from ab bc have sh: "shrinks (fst a) (fst c)"
    unfolding step_ok_def by (blast intro: shrinks_trans)
  from ab bc have pre: "prefix (snd a) (snd c)"
    unfolding step_ok_def by (blast intro: prefix_order.trans)
  have q: "snd c = snd a \<or> (\<exists>p \<in> set (fst c). length (snd p) \<le> 1)"
  proof (cases "snd b = snd a")
    case True
    with bc show ?thesis unfolding step_ok_def by auto
  next
    case False
    with ab obtain p where p: "p \<in> set (fst b)" "length (snd p) \<le> 1"
      unfolding step_ok_def by blast
    from bc have "shrinks (fst b) (fst c)" unfolding step_ok_def by blast
    from shrinks_short[OF this p] show ?thesis by blast
  qed
  from sh pre q show ?thesis unfolding step_ok_def by blast
qed

lemma for_each_step_ok:
  assumes "\<And>x s s'. x \<in> set xs \<Longrightarrow> body x s = Inr s' \<Longrightarrow> step_ok s s'"
  shows "for_each xs body s = Inr s' \<Longrightarrow> step_ok s s'"
  using assms
proof (induction xs arbitrary: s)
  case Nil
  then show ?case by (simp add: step_ok_refl)
next
  case (Cons x xs)
  from Cons.prems(1) obtain s1 where s1: "body x s = Inr s1" "for_each xs body s1 = Inr s'"
    by (auto split: sum.splits)
  have "step_ok s s1" by (rule Cons.prems(2)[OF _ s1(1)]) simp
  moreover have "step_ok s1 s'"
    by (rule Cons.IH[OF s1(2)]) (rule Cons.prems(2), simp_all)
  ultimately show ?case by (rule step_ok_trans)
qed

lemma update_member: "(k, x) \<in> set (AList.update k x al)"
  by (induction al) auto

lemma assign_value_step_ok:
  "getitem values box = Inr cur \<Longrightarrow> subseq value cur \<Longrightarrow>
   step_ok (values, assignments) (assign_value values box value assignments)"
proof -
  assume g: "getitem values box = Inr cur" and sub: "subseq value cur"
  from g have m: "map_of values box = Some cur"
    by (auto simp: getitem_def split: option.splits)
  have sh: "shrinks values (AList.update box value values)"
    using m sub by (rule shrinks_update)
  have "\<exists>p \<in> set (AList.update box value values). length (snd p) \<le> 1" if "length value = 1"
    using that by (intro bexI[of _ "(box, value)"]) (simp_all add: update_member)
  with sh show ?thesis
    by (auto simp: step_ok_def assign_value_def setitem_def Let_def)
qed

lemma eliminate_peer_step_ok: "eliminate_peer digit peer s = Inr s' \<Longrightarrow> step_ok s s'"
  unfolding eliminate_peer_def
  by (auto split: prod.splits sum.splits intro!: assign_value_step_ok subseq_str_remove)

lemma eliminate_box_step_ok: "eliminate_box box s = Inr s' \<Longrightarrow> step_ok s s'"
  unfolding eliminate_box_def
  by (auto split: prod.splits sum.splits elim!: for_each_step_ok[rotated] intro: eliminate_peer_step_ok)

lemma eliminate_in_step_ok: "eliminate_in order s = Inr s' \<Longrightarrow> step_ok s s'"
  unfolding eliminate_in_def
  by (erule for_each_step_ok[rotated]) (rule eliminate_box_step_ok)

lemma eliminate_step_ok: "eliminate s = Inr s' \<Longrightarrow> step_ok s s'"
  unfolding eliminate_def by (auto split: prod.splits dest: eliminate_in_step_ok)

lemma naked_twins_box_step_ok: "naked_twins_box numbers number box s = Inr s' \<Longrightarrow> step_ok s s'"
  unfolding naked_twins_box_def
  by (auto split: prod.splits sum.splits if_splits
      intro!: assign_value_step_ok subseq_str_remove step_ok_refl)

lemma naked_twins_unit_step_ok: "naked_twins_unit unit s = Inr s' \<Longrightarrow> step_ok s s'"
  unfolding naked_twins_unit_def Let_def
  apply (clarsimp split: prod.splits sum.splits)
  apply (erule for_each_step_ok[rotated])
  apply (erule for_each_step_ok[rotated])
  apply (erule for_each_step_ok[rotated])
  apply (erule naked_twins_box_step_ok)
  done

lemma naked_twins_step_ok: "naked_twins s = Inr s' \<Longrightarrow> step_ok s s'"
  unfolding naked_twins_def
  by (erule for_each_step_ok[rotated]) (rule naked_twins_unit_step_ok)

lemma collect_Inr:
  "collect f xs = Inr ys \<Longrightarrow> length ys = length xs \<and> (\<forall>i < length xs. f (xs ! i) = Inr (ys ! i))"
proof (induction xs arbitrary: ys)
  case Nil
  then show ?case by simp
next
  case (Cons x xs)
  then show ?case
    by (auto split: sum.splits simp: nth_Cons split: nat.splits)
qed

lemma collect_Inr_set:
  "collect f xs = Inr ys \<Longrightarrow> y \<in> set ys \<Longrightarrow> \<exists>x \<in> set xs. f x = Inr y"
  by (induction xs arbitrary: ys) (auto split: sum.splits)

lemma only_choice_digit_step_ok: "only_choice_digit unit digit s = Inr s' \<Longrightarrow> step_ok s s'"
proof -
  assume a: "only_choice_digit unit digit s = Inr s'"
  obtain v l where s: "s = (v, l)" by (cases s)
  let ?f = "\<lambda>box. case getitem v box of Inl e \<Rightarrow> Inl e | Inr x \<Rightarrow> Inr (box, digit \<in> set x)"
  from a s obtain marked where m: "collect ?f unit = Inr marked"
    by (auto simp: only_choice_digit_def split: sum.splits)
  let ?dplaces = "map fst (filter snd marked)"
  show ?thesis
  proof (cases "length ?dplaces = 1")
    case False
    with a s m show ?thesis by (simp add: only_choice_digit_def step_ok_refl)
  next
    case True
    then have "hd ?dplaces \<in> set ?dplaces" by (cases ?dplaces) auto
    then have "(hd ?dplaces, True) \<in> set marked" by auto
    from collect_Inr_set[OF m this] obtain b where
      b: "?f b = Inr (hd ?dplaces, True)" by blast
    then obtain x where
      "getitem v (hd ?dplaces) = Inr x" "digit \<in> set x"
      by (cases "getitem v b") auto
    then have "step_ok (v, l) (assign_value v (hd ?dplaces) [digit] l)"
      by (intro assign_value_step_ok) (auto simp: subseq_singleton_left)
    with a s m True show ?thesis by (simp add: only_choice_digit_def)
  qed
qed

lemma only_choice_step_ok: "only_choice s = Inr s' \<Longrightarrow> step_ok s s'"
  unfolding only_choice_def
  apply (erule for_each_step_ok[rotated])
  apply (erule for_each_step_ok[rotated])
  apply (erule only_choice_digit_step_ok)
  done
subsection \<open>The propagation loop\<close>

text \<open>\<^verbatim>\<open>reduce_puzzle\<close>: one round of the \<^verbatim>\<open>while\<close> loop is one unfolding.\<close>

function reduce_puzzle :: "state \<Rightarrow> error + (pyval \<times> grid list)" where
  "reduce_puzzle (values, assignments) =
     (let solved_values_before = length (boxes_with_len values 1)
      in case eliminate (values, assignments) of Inl e \<Rightarrow> Inl e
         | Inr s1 \<Rightarrow>
        (case naked_twins s1 of Inl e \<Rightarrow> Inl e
         | Inr s2 \<Rightarrow>
        (case only_choice s2 of Inl e \<Rightarrow> Inl e
         | Inr (values', assignments') \<Rightarrow>
             let solved_values_after = length (boxes_with_len values' 1);
                 stalled = (solved_values_before = solved_values_after)
             in if length (boxes_with_len values' 0) \<noteq> 0 then Inr (PyFalse, assignments')
                else if stalled then Inr (PyDict values', assignments')
                else reduce_puzzle (values', assignments'))))"
  by pat_completeness auto

lemma round_step_ok:
  "eliminate s = Inr s1 \<Longrightarrow> naked_twins s1 = Inr s2 \<Longrightarrow> only_choice s2 = Inr s3 \<Longrightarrow> step_ok s s3"
  by (blast intro: step_ok_trans eliminate_step_ok naked_twins_step_ok only_choice_step_ok)

lemma shrinks_total_less: "shrinks v v' \<Longrightarrow> v' \<noteq> v \<Longrightarrow> total v' < total v"
  using shrinks_total_le[of v v'] shrinks_total_eq[of v v'] by fastforce

termination reduce_puzzle
proof (relation "measure (\<lambda>(v, l). total v)", goal_cases)
  case 1
  show ?case by simp
next
  case (2 v l before s1 s2 s3 v' l' after stalled)
  then have "step_ok (v, l) (v', l')"
    using round_step_ok by metis
  then have sh: "shrinks v v'" by (simp add: step_ok_def)
  from 2 have "v' \<noteq> v" by auto
  with sh show ?case by (simp add: shrinks_total_less)
qed

declare reduce_puzzle.simps [simp del]
subsection \<open>Search\<close>

text \<open>\<^verbatim>\<open>all(len(values[s]) == 1 for s in boxes)\<close>: stops at the first box that is not solved.\<close>

fun all_solved :: "grid \<Rightarrow> string list \<Rightarrow> error + bool" where
  "all_solved values [] = Inr True"
| "all_solved values (s # ss) =
     (case getitem values s of Inl e \<Rightarrow> Inl e
      | Inr x \<Rightarrow> if length x = 1 then all_solved values ss else Inr False)"

text \<open>The generator \<^verbatim>\<open>(len(values[s]), s) for s in boxes if len(values[s]) > 1\<close>.\<close>

fun unsolved :: "grid \<Rightarrow> string list \<Rightarrow> error + (nat \<times> string) list" where
  "unsolved values [] = Inr []"
| "unsolved values (s # ss) =
     (case getitem values s of Inl e \<Rightarrow> Inl e
      | Inr x \<Rightarrow>
         (case unsolved values ss of Inl e \<Rightarrow> Inl e
          | Inr rest \<Rightarrow> Inr (if length x > 1 then (length x, s) # rest else rest)))"

text \<open>\<^verbatim>\<open>search\<close>, and the loop over the candidates of the chosen box \<open>s\<close>. A failed attempt
  leaves its events in \<^verbatim>\<open>assignments\<close>; the dictionary of the caller is untouched, since each
  attempt works on a copy.\<close>

function search :: "state \<Rightarrow> error + (pyval \<times> grid list)"
  and search_loop :: "grid \<Rightarrow> string \<Rightarrow> string \<Rightarrow> grid list \<Rightarrow> error + (pyval \<times> grid list)"
where
  "search (values, assignments) =
     (case reduce_puzzle (values, assignments) of Inl e \<Rightarrow> Inl e
      | Inr (reduced, assignments1) \<Rightarrow>
         (case reduced of
            PyDict values1 \<Rightarrow>
              if \<not> truthy reduced then Inr (reduced, assignments1)
              else (case all_solved values1 boxes of Inl e \<Rightarrow> Inl e
                | Inr True \<Rightarrow> Inr (reduced, assignments1)
                | Inr False \<Rightarrow>
                   (case unsolved values1 boxes of Inl e \<Rightarrow> Inl e
                    | Inr pairs \<Rightarrow>
                       (case py_min pairs of Inl e \<Rightarrow> Inl e
                        | Inr (n, s) \<Rightarrow>
                           (case getitem values1 s of Inl e \<Rightarrow> Inl e
                            | Inr candidates \<Rightarrow> search_loop values1 s candidates assignments1))))
          | _ \<Rightarrow> Inr (reduced, assignments1)))"
| "search_loop values s [] assignments = Inr (PyNone, assignments)"
| "search_loop values s (value # rest) assignments =
     (let new_sudoku = values
      in case search (assign_value new_sudoku s [value] assignments) of Inl e \<Rightarrow> Inl e
         | Inr (attempt, assignments') \<Rightarrow>
             if truthy attempt then Inr (attempt, assignments')
             else search_loop values s rest assignments')"
  by pat_completeness auto

lemma reduce_puzzle_shrinks:
  "reduce_puzzle (v, l) = Inr (PyDict v', l') \<Longrightarrow> shrinks v v'"
proof (induction "(v, l)" arbitrary: v l rule: reduce_puzzle.induct)
  case (1 v l)
  from "1.prems" obtain s1 s2 v3 l3 where
    st: "eliminate (v, l) = Inr s1" "naked_twins s1 = Inr s2" "only_choice s2 = Inr (v3, l3)"
    by (auto simp: reduce_puzzle.simps[of v l] Let_def split: sum.splits prod.splits)
  then have "step_ok (v, l) (v3, l3)" by (rule round_step_ok)
  then have sh: "shrinks v v3" by (simp add: step_ok_def)
  show ?case
  proof (cases "length (boxes_with_len v3 0) = 0 \<and> length (boxes_with_len v 1) \<noteq> length (boxes_with_len v3 1)")
    case True
    with "1.prems" st have rec: "reduce_puzzle (v3, l3) = Inr (PyDict v', l')"
      by (simp add: reduce_puzzle.simps[of v l] Let_def)
    have "shrinks v3 v'"
      by (rule "1.hyps"[OF refl st(1) st(2) st(3) refl refl refl _ _ rec]) (use True in simp_all)
    with sh show ?thesis by (rule shrinks_trans)
  next
    case False
    with "1.prems" st have "v' = v3"
      by (auto simp: reduce_puzzle.simps[of v l] Let_def split: if_splits)
    with sh show ?thesis by simp
  qed
qed

lemma py_min_member: "py_min xs = Inr x \<Longrightarrow> x \<in> set xs"
proof -
  have "fold (\<lambda>y best. if y < best then y else best) ys b \<in> insert b (set ys)" for ys and b :: 'a
    by (induction ys arbitrary: b) auto
  then show "py_min xs = Inr x \<Longrightarrow> x \<in> set xs"
    by (auto simp: py_min_def split: list.splits)
qed

lemma unsolved_member:
  "unsolved v ss = Inr pairs \<Longrightarrow> (n, s) \<in> set pairs \<Longrightarrow>
   \<exists>x. getitem v s = Inr x \<and> length x = n \<and> 1 < n \<and> s \<in> set ss"
  by (induction ss arbitrary: pairs) (auto split: sum.splits if_splits)

lemma total_update:
  "map_of v k = Some x \<Longrightarrow> total (AList.update k x' v) + length x = total v + length x'"
  by (induction v) (auto simp: total_def)

lemma total_update_length:
  "length x = length y \<Longrightarrow> total (AList.update k x v) = total (AList.update k y v)"
  by (induction v) (auto simp: total_def)

termination search
proof (relation "measures [\<lambda>a. case a of Inl (v, l) \<Rightarrow> 2 * total v
                                 | Inr (v, s, cs, l) \<Rightarrow> 2 * total (setitem v s ''0'') + 1,
                           \<lambda>a. case a of Inl (v, l) \<Rightarrow> 0 | Inr (v, s, cs, l) \<Rightarrow> length cs]", goal_cases)
  case 1
  show ?case by simp
next
  case (2 v l r p l1 v1 b pairs ns n s cands)
  then have sh: "shrinks v v1" using reduce_puzzle_shrinks[of v l v1 l1] by simp
  from 2 have "(n, s) \<in> set pairs" using py_min_member by fastforce
  with 2 obtain x where x: "map_of v1 s = Some x" "1 < length x"
    using unsolved_member[of v1 boxes pairs n s] by (auto simp: getitem_def split: option.splits)
  from total_update[OF x(1), of "''0''"] x(2) have "total (setitem v1 s ''0'') < total v1"
    by (simp add: setitem_def)
  with shrinks_total_le[OF sh] show ?case by simp
next
  case (3 v s c rest l new_sudoku)
  have "total (AList.update s [c] v) = total (AList.update s ''0'' v)"
    by (rule total_update_length) simp
  with 3 show ?case
    by (simp add: assign_value_def Let_def setitem_def)
next
  case 4
  then show ?case by simp
qed

declare search.simps [simp del]

subsection \<open>Parsing and the entry point\<close>

text \<open>\<^verbatim>\<open>grid_values\<close>: a character of \<open>cols\<close> contributes itself, a dot contributes \<open>cols\<close>,
  any other character contributes nothing; the \<^verbatim>\<open>assert\<close> checks the number of
  contributions.\<close>

definition grid_values :: "string \<Rightarrow> error + grid" where
  "grid_values grid =
     (let chars = concat (map (\<lambda>c. (if c \<in> set cols then [[c]] else []) @
                                     (if c = CHR ''.'' then [cols] else [])) grid)
      in if length chars = 81 then Inr (py_dict (zip boxes chars)) else Inl AssertionError)"

text \<open>\<^verbatim>\<open>solve(grid)\<close> is \<^verbatim>\<open>search(grid_values(grid))\<close>: the argument is evaluated first, so
  a failed \<^verbatim>\<open>assert\<close> leaves before \<^verbatim>\<open>search\<close> is entered.\<close>

definition solve :: "string \<Rightarrow> grid list \<Rightarrow> error + (pyval \<times> grid list)" where
  "solve grid assignments =
     (case grid_values grid of Inl e \<Rightarrow> Inl e
      | Inr values \<Rightarrow> search (values, assignments))"

section \<open>Properties of the topology\<close>

lemma in_cross: "[r, c] \<in> set (cross a b) \<longleftrightarrow> r \<in> set a \<and> c \<in> set b"
  by (auto simp: cross_def)

lemma cross_shape: "x \<in> set (cross a b) \<Longrightarrow> \<exists>r c. x = [r, c] \<and> r \<in> set a \<and> c \<in> set b"
  by (auto simp: cross_def)

lemma distinct_cross: "distinct a \<Longrightarrow> distinct b \<Longrightarrow> distinct (cross a b)"
  unfolding cross_def by (induction a) (auto simp: distinct_map inj_on_def)

lemma length_cross: "length (cross a b) = length a * length b"
  unfolding cross_def by (induction a) auto

lemma rows_eval: "rows = ''ABCDEFGHI''"
  by (simp add: rows_def ABCDEFGHI_def)

lemma cols_eval: "cols = ''123456789''"
  by (simp add: cols_def S_def)

lemma in_boxes: "[r, c] \<in> set boxes \<longleftrightarrow> r \<in> set ''ABCDEFGHI'' \<and> c \<in> set ''123456789''"
  by (simp add: boxes_def in_cross rows_eval cols_eval)

lemma boxes_shape: "s \<in> set boxes \<Longrightarrow> \<exists>r c. s = [r, c] \<and> r \<in> set rows \<and> c \<in> set cols"
  unfolding boxes_def by (rule cross_shape)

lemma distinct_boxes: "distinct boxes"
  unfolding boxes_def by (rule distinct_cross) (simp_all add: rows_eval cols_eval)

lemma length_boxes: "length boxes = 81"
  by (simp add: boxes_def length_cross rows_eval cols_eval)

lemma row_units_eval: "row_units = map (\<lambda>r. cross [r] ''123456789'') ''ABCDEFGHI''"
  by (simp add: row_units_def rows_eval cols_eval)

lemma column_units_eval: "column_units = map (\<lambda>c. cross ''ABCDEFGHI'' [c]) ''123456789''"
  by (simp add: column_units_def rows_eval cols_eval)

lemma square_units_eval:
  "square_units = [cross ''ABC'' ''123'', cross ''ABC'' ''456'', cross ''ABC'' ''789'',
                   cross ''DEF'' ''123'', cross ''DEF'' ''456'', cross ''DEF'' ''789'',
                   cross ''GHI'' ''123'', cross ''GHI'' ''456'', cross ''GHI'' ''789'']"
  by (simp add: square_units_def get_square_units_def py_range_def rows_eval cols_eval
      upt_conv_Cons Let_def)

lemma diagonals_u_eval:
  "diagonals_u = [[''A1'', ''B2'', ''C3'', ''D4'', ''E5'', ''F6'', ''G7'', ''H8'', ''I9''],
                  [''A9'', ''B8'', ''C7'', ''D6'', ''E5'', ''F4'', ''G3'', ''H2'', ''I1'']]"
  by (simp add: diagonals_u_def rows_eval cols_eval r_string_def)

lemma unitlist_eval: "unitlist =
 [[''A1'', ''A2'', ''A3'', ''A4'', ''A5'', ''A6'', ''A7'', ''A8'', ''A9''],
  [''B1'', ''B2'', ''B3'', ''B4'', ''B5'', ''B6'', ''B7'', ''B8'', ''B9''],
  [''C1'', ''C2'', ''C3'', ''C4'', ''C5'', ''C6'', ''C7'', ''C8'', ''C9''],
  [''D1'', ''D2'', ''D3'', ''D4'', ''D5'', ''D6'', ''D7'', ''D8'', ''D9''],
  [''E1'', ''E2'', ''E3'', ''E4'', ''E5'', ''E6'', ''E7'', ''E8'', ''E9''],
  [''F1'', ''F2'', ''F3'', ''F4'', ''F5'', ''F6'', ''F7'', ''F8'', ''F9''],
  [''G1'', ''G2'', ''G3'', ''G4'', ''G5'', ''G6'', ''G7'', ''G8'', ''G9''],
  [''H1'', ''H2'', ''H3'', ''H4'', ''H5'', ''H6'', ''H7'', ''H8'', ''H9''],
  [''I1'', ''I2'', ''I3'', ''I4'', ''I5'', ''I6'', ''I7'', ''I8'', ''I9''],
  [''A1'', ''B1'', ''C1'', ''D1'', ''E1'', ''F1'', ''G1'', ''H1'', ''I1''],
  [''A2'', ''B2'', ''C2'', ''D2'', ''E2'', ''F2'', ''G2'', ''H2'', ''I2''],
  [''A3'', ''B3'', ''C3'', ''D3'', ''E3'', ''F3'', ''G3'', ''H3'', ''I3''],
  [''A4'', ''B4'', ''C4'', ''D4'', ''E4'', ''F4'', ''G4'', ''H4'', ''I4''],
  [''A5'', ''B5'', ''C5'', ''D5'', ''E5'', ''F5'', ''G5'', ''H5'', ''I5''],
  [''A6'', ''B6'', ''C6'', ''D6'', ''E6'', ''F6'', ''G6'', ''H6'', ''I6''],
  [''A7'', ''B7'', ''C7'', ''D7'', ''E7'', ''F7'', ''G7'', ''H7'', ''I7''],
  [''A8'', ''B8'', ''C8'', ''D8'', ''E8'', ''F8'', ''G8'', ''H8'', ''I8''],
  [''A9'', ''B9'', ''C9'', ''D9'', ''E9'', ''F9'', ''G9'', ''H9'', ''I9''],
  [''A1'', ''A2'', ''A3'', ''B1'', ''B2'', ''B3'', ''C1'', ''C2'', ''C3''],
  [''A4'', ''A5'', ''A6'', ''B4'', ''B5'', ''B6'', ''C4'', ''C5'', ''C6''],
  [''A7'', ''A8'', ''A9'', ''B7'', ''B8'', ''B9'', ''C7'', ''C8'', ''C9''],
  [''D1'', ''D2'', ''D3'', ''E1'', ''E2'', ''E3'', ''F1'', ''F2'', ''F3''],
  [''D4'', ''D5'', ''D6'', ''E4'', ''E5'', ''E6'', ''F4'', ''F5'', ''F6''],
  [''D7'', ''D8'', ''D9'', ''E7'', ''E8'', ''E9'', ''F7'', ''F8'', ''F9''],
  [''G1'', ''G2'', ''G3'', ''H1'', ''H2'', ''H3'', ''I1'', ''I2'', ''I3''],
  [''G4'', ''G5'', ''G6'', ''H4'', ''H5'', ''H6'', ''I4'', ''I5'', ''I6''],
  [''G7'', ''G8'', ''G9'', ''H7'', ''H8'', ''H9'', ''I7'', ''I8'', ''I9''],
  [''A1'', ''B2'', ''C3'', ''D4'', ''E5'', ''F6'', ''G7'', ''H8'', ''I9''],
  [''A9'', ''B8'', ''C7'', ''D6'', ''E5'', ''F4'', ''G3'', ''H2'', ''I1'']]"
  by (simp add: unitlist_def row_units_eval column_units_eval square_units_eval diagonals_u_eval
      cross_def)

lemma unit_in_boxes: "u \<in> set unitlist \<Longrightarrow> set u \<subseteq> set boxes"
proof -
  have "\<forall>u \<in> set unitlist. set u \<subseteq> set boxes"
    by (simp add: unitlist_eval in_boxes)
  then show "u \<in> set unitlist \<Longrightarrow> set u \<subseteq> set boxes" by blast
qed

lemma unit_shape: "u \<in> set unitlist \<Longrightarrow> length u = 9 \<and> distinct u"
proof -
  have "\<forall>u \<in> set unitlist. length u = 9 \<and> distinct u"
    unfolding unitlist_def square_units_eval diagonals_u_eval row_units_eval column_units_eval
    by (simp add: length_cross distinct_cross)
  then show "u \<in> set unitlist \<Longrightarrow> length u = 9 \<and> distinct u" by blast
qed

lemma length_filter_eq_distinct:
  "distinct xs \<Longrightarrow> x \<in> set xs \<Longrightarrow> length (filter (\<lambda>y. x = y) xs) = 1"
  by (induction xs) (auto simp: filter_empty_conv)

lemma filter_rows_cross:
  "c \<in> set b \<Longrightarrow> filter (\<lambda>u. [r, c] \<in> set u) (map (\<lambda>r'. cross [r'] b) a) =
     map (\<lambda>r'. cross [r'] b) (filter (\<lambda>r'. r = r') a)"
  by (induction a) (auto simp: in_cross)

lemma filter_cols_cross:
  "r \<in> set a \<Longrightarrow> filter (\<lambda>u. [r, c] \<in> set u) (map (\<lambda>c'. cross a [c']) b) =
     map (\<lambda>c'. cross a [c']) (filter (\<lambda>c'. c = c') b)"
  by (induction b) (auto simp: in_cross)

lemma length_filter_row_units:
  "r \<in> set rows \<Longrightarrow> c \<in> set cols \<Longrightarrow> length (filter (\<lambda>u. [r, c] \<in> set u) row_units) = 1"
proof -
  assume a: "r \<in> set rows" "c \<in> set cols"
  have "distinct rows" by (simp add: rows_eval)
  with a show ?thesis
    unfolding row_units_def
    by (simp only: filter_rows_cross length_map length_filter_eq_distinct)
qed

lemma length_filter_column_units:
  "r \<in> set rows \<Longrightarrow> c \<in> set cols \<Longrightarrow> length (filter (\<lambda>u. [r, c] \<in> set u) column_units) = 1"
proof -
  assume a: "r \<in> set rows" "c \<in> set cols"
  have "distinct cols" by (simp add: cols_eval)
  with a show ?thesis
    unfolding column_units_def
    by (simp only: filter_cols_cross length_map length_filter_eq_distinct)
qed

lemma length_filter_square_units:
  "r \<in> set rows \<Longrightarrow> c \<in> set cols \<Longrightarrow> length (filter (\<lambda>u. [r, c] \<in> set u) square_units) = 1"
proof -
  have "\<forall>r \<in> set rows. \<forall>c \<in> set cols. length (filter (\<lambda>u. [r, c] \<in> set u) square_units) = 1"
    unfolding square_units_eval by (simp add: rows_eval cols_eval in_cross)
  then show "r \<in> set rows \<Longrightarrow> c \<in> set cols \<Longrightarrow> ?thesis" by blast
qed

lemma length_units_of:
  assumes "r \<in> set rows" "c \<in> set cols"
  shows "length (units_of [r, c]) =
       3 + length (filter (\<lambda>u. [r, c] \<in> set u) diagonals_u)"
  unfolding units_of_def unitlist_def
  by (simp add: length_filter_row_units length_filter_column_units length_filter_square_units assms)

lemma update_fresh: "k \<notin> fst ` set al \<Longrightarrow> AList.update k x al = al @ [(k, x)]"
  by (induction al) auto

lemma fold_setitem_append:
  "distinct (map fst ps) \<Longrightarrow> set (map fst ps) \<inter> set (map fst acc) = {} \<Longrightarrow>
   fold (\<lambda>(k, x) d. setitem d k x) ps acc = acc @ ps"
proof (induction ps arbitrary: acc)
  case Nil
  then show ?case by simp
next
  case (Cons p ps)
  obtain k x where p: "p = (k, x)" by (cases p)
  from Cons.prems p have "k \<notin> fst ` set acc" by auto
  then have "setitem acc k x = acc @ [(k, x)]"
    by (simp add: setitem_def update_fresh)
  moreover have "fold (\<lambda>(k, x) d. setitem d k x) ps (acc @ [(k, x)]) = (acc @ [(k, x)]) @ ps"
    using Cons.prems p by (intro Cons.IH) auto
  ultimately show ?case using p by simp
qed

lemma py_dict_distinct: "distinct (map fst ps) \<Longrightarrow> py_dict ps = ps"
  unfolding py_dict_def using fold_setitem_append[of ps "[]"] by simp

lemma units_eq: "units = map (\<lambda>s. (s, units_of s)) boxes"
  unfolding units_def by (rule py_dict_distinct) (simp add: comp_def distinct_boxes)

lemma peers_eq: "peers = map (\<lambda>s. (s, peers_of s)) boxes"
  unfolding peers_def by (rule py_dict_distinct) (simp add: comp_def distinct_boxes)

lemma getitem_tabulated:
  "getitem (map (\<lambda>s. (s, f s)) ks) k = (if k \<in> set ks then Inr (f k) else Inl (KeyError k))"
  by (simp add: getitem_def map_of_map_restrict restrict_map_def)

lemma getitem_units: "getitem units s = (if s \<in> set boxes then Inr (units_of s) else Inl (KeyError s))"
  by (simp add: units_eq getitem_tabulated)

lemma getitem_peers: "getitem peers s = (if s \<in> set boxes then Inr (peers_of s) else Inl (KeyError s))"
  by (simp add: peers_eq getitem_tabulated)

lemma in_peers_of:
  "p \<in> set (peers_of s) \<longleftrightarrow> p \<noteq> s \<and> (\<exists>u \<in> set unitlist. s \<in> set u \<and> p \<in> set u)"
  by (auto simp: peers_of_def units_of_def)

lemma peers_of_sym: "p \<in> set (peers_of s) \<Longrightarrow> s \<in> set (peers_of p)"
  by (auto simp: in_peers_of)

lemma peers_of_boxes: "p \<in> set (peers_of s) \<Longrightarrow> p \<in> set boxes"
  using unit_in_boxes by (auto simp: in_peers_of)

lemma distinct_peers_of: "distinct (peers_of s)"
  by (simp add: peers_of_def)

lemma unit_peers: "u \<in> set unitlist \<Longrightarrow> a \<in> set u \<Longrightarrow> b \<in> set u \<Longrightarrow> a \<noteq> b \<Longrightarrow> b \<in> set (peers_of a)"
  by (auto simp: in_peers_of)


section \<open>Well-formed grids as tables\<close>

text \<open>
  Every dictionary the solver works on has exactly the 81 boxes as keys, in the order of
  \<open>boxes\<close>: \<^verbatim>\<open>grid_values\<close> builds it so, and no statement adds or deletes a key. Such a
  dictionary is the table \<open>tab f\<close> of a function from labels to candidate strings, and on
  tables each rule is a function on \<open>f\<close> that cannot raise.
\<close>

definition tab :: "(string \<Rightarrow> string) \<Rightarrow> grid" where
  "tab f = map (\<lambda>b. (b, f b)) boxes"

definition wf_grid :: "grid \<Rightarrow> bool" where
  "wf_grid v = (keys v = boxes)"

definition cell :: "grid \<Rightarrow> string \<Rightarrow> string" where
  "cell v b = (case map_of v b of Some x \<Rightarrow> x | None \<Rightarrow> [])"

definition elim_peer_f :: "string \<Rightarrow> string \<Rightarrow> (string \<Rightarrow> string) \<Rightarrow> string \<Rightarrow> string" where
  "elim_peer_f digit peer f = f(peer := str_remove digit (f peer))"

definition elim_box_f :: "string \<Rightarrow> (string \<Rightarrow> string) \<Rightarrow> string \<Rightarrow> string" where
  "elim_box_f box f = fold (elim_peer_f (f box)) (peers_of box) f"

definition eliminate_in_f :: "string list \<Rightarrow> (string \<Rightarrow> string) \<Rightarrow> string \<Rightarrow> string" where
  "eliminate_in_f s_values f = fold elim_box_f s_values f"

definition with_len_f :: "(string \<Rightarrow> string) \<Rightarrow> nat \<Rightarrow> string list" where
  "with_len_f f n = filter (\<lambda>b. length (f b) = n) boxes"

definition eliminate_f :: "(string \<Rightarrow> string) \<Rightarrow> string \<Rightarrow> string" where
  "eliminate_f f = eliminate_in_f (with_len_f f 1) f"

definition nt_box_f :: "string \<Rightarrow> char \<Rightarrow> string \<Rightarrow> (string \<Rightarrow> string) \<Rightarrow> string \<Rightarrow> string" where
  "nt_box_f numbers number box f =
     (if f box \<noteq> numbers then f(box := str_remove [number] (f box)) else f)"

definition twins_num_of :: "string list \<Rightarrow> string list" where
  "twins_num_of unit_v = filter (\<lambda>data. count_list unit_v data = 2 \<and> length data = 2) unit_v"

definition nt_pair_f :: "string list \<Rightarrow> string \<Rightarrow> (string \<Rightarrow> string) \<Rightarrow> string \<Rightarrow> string" where
  "nt_pair_f unit numbers f = fold (\<lambda>number. fold (nt_box_f numbers number) unit) numbers f"

definition nt_unit_f :: "string list \<Rightarrow> (string \<Rightarrow> string) \<Rightarrow> string \<Rightarrow> string" where
  "nt_unit_f unit f = fold (nt_pair_f unit) (twins_num_of (map f unit)) f"

definition naked_twins_f :: "(string \<Rightarrow> string) \<Rightarrow> string \<Rightarrow> string" where
  "naked_twins_f f = fold nt_unit_f unitlist f"

definition oc_digit_f :: "string list \<Rightarrow> char \<Rightarrow> (string \<Rightarrow> string) \<Rightarrow> string \<Rightarrow> string" where
  "oc_digit_f unit digit f =
     (let dplaces = filter (\<lambda>b. digit \<in> set (f b)) unit
      in if length dplaces = 1 then f(hd dplaces := [digit]) else f)"

definition oc_unit_f :: "string list \<Rightarrow> (string \<Rightarrow> string) \<Rightarrow> string \<Rightarrow> string" where
  "oc_unit_f unit f = fold (oc_digit_f unit) cols f"

definition only_choice_f :: "(string \<Rightarrow> string) \<Rightarrow> string \<Rightarrow> string" where
  "only_choice_f f = fold oc_unit_f unitlist f"

definition round_f :: "(string \<Rightarrow> string) \<Rightarrow> string \<Rightarrow> string" where
  "round_f f = only_choice_f (naked_twins_f (eliminate_f f))"

lemma map_of_tab: "map_of (tab f) k = (if k \<in> set boxes then Some (f k) else None)"
  unfolding tab_def by (simp add: map_of_map_restrict restrict_map_def)

lemma getitem_tab: "k \<in> set boxes \<Longrightarrow> getitem (tab f) k = Inr (f k)"
  by (simp add: getitem_def map_of_tab)

lemma update_tabulated:
  "distinct bs \<Longrightarrow> k \<in> set bs \<Longrightarrow>
   AList.update k x (map (\<lambda>b. (b, f b)) bs) = map (\<lambda>b. (b, (f(k := x)) b)) bs"
  by (induction bs) auto

lemma setitem_tab: "k \<in> set boxes \<Longrightarrow> setitem (tab f) k x = tab (f(k := x))"
  by (simp add: setitem_def tab_def update_tabulated distinct_boxes)

lemma keys_tab: "keys (tab f) = boxes"
  by (simp add: keys_def tab_def comp_def)

lemma wf_grid_tab: "wf_grid (tab f)"
  by (simp add: wf_grid_def keys_tab)

lemma cell_tab: "b \<in> set boxes \<Longrightarrow> cell (tab f) b = f b"
  by (simp add: cell_def map_of_tab)

lemma tab_cell: "wf_grid v \<Longrightarrow> tab (cell v) = v"
proof -
  assume wf: "wf_grid v"
  then have d: "distinct (map fst v)"
    by (simp add: wf_grid_def keys_def distinct_boxes)
  have "map (\<lambda>b. (b, cell v b)) (map fst v) = v"
  proof (rule nth_equalityI)
    show "length (map (\<lambda>b. (b, cell v b)) (map fst v)) = length v" by simp
  next
    fix i assume "i < length (map (\<lambda>b. (b, cell v b)) (map fst v))"
    then have i: "i < length v" by simp
    then have "v ! i \<in> set v" by simp
    then have "map_of v (fst (v ! i)) = Some (snd (v ! i))"
      using d by (simp add: map_of_eq_Some_iff)
    with i show "map (\<lambda>b. (b, cell v b)) (map fst v) ! i = v ! i"
      by (simp add: cell_def prod_eq_iff)
  qed
  with wf show ?thesis by (simp add: tab_def wf_grid_def keys_def)
qed

lemma tab_eq_iff: "tab f = tab g \<longleftrightarrow> (\<forall>b \<in> set boxes. f b = g b)"
  by (auto simp: tab_def)

lemma boxes_with_len_tab: "boxes_with_len (tab f) n = with_len_f f n"
  unfolding boxes_with_len_def keys_tab with_len_f_def
  by (rule filter_cong) (simp_all add: map_of_tab)

lemma for_each_tab:
  assumes "\<And>x f l. x \<in> set xs \<Longrightarrow> \<exists>l'. body x (tab f, l) = Inr (tab (g x f), l')"
  shows "\<exists>l'. for_each xs body (tab f, l) = Inr (tab (fold g xs f), l')"
  using assms
proof (induction xs arbitrary: f l)
  case Nil
  then show ?case by simp
next
  case (Cons x xs)
  from Cons.prems[of x f l] obtain l1 where l1: "body x (tab f, l) = Inr (tab (g x f), l1)"
    by auto
  from Cons.IH[of "g x f" l1] Cons.prems obtain l' where
    "for_each xs body (tab (g x f), l1) = Inr (tab (fold g xs (g x f)), l')"
    by auto
  with l1 show ?case by simp
qed

lemma collect_total: "collect (\<lambda>x. Inr (h x)) xs = Inr (map h xs)"
  by (induction xs) auto

lemma collect_cong: "(\<And>x. x \<in> set xs \<Longrightarrow> f x = g x) \<Longrightarrow> collect f xs = collect g xs"
proof (induction xs)
  case Nil
  then show ?case by simp
next
  case (Cons a xs)
  have "f a = g a" by (rule Cons.prems) simp
  moreover have "collect f xs = collect g xs" by (rule Cons.IH) (rule Cons.prems, simp)
  ultimately show ?case by (simp split: sum.splits)
qed

lemma collect_getitem_tab: "set unit \<subseteq> set boxes \<Longrightarrow> collect (getitem (tab f)) unit = Inr (map f unit)"
  using collect_cong[of unit "getitem (tab f)" "\<lambda>x. Inr (f x)"]
  by (simp add: collect_total getitem_tab subset_iff)

lemma assign_value_tab:
  "box \<in> set boxes \<Longrightarrow> \<exists>l'. assign_value (tab f) box x l = (tab (f(box := x)), l')"
  by (simp add: assign_value_def setitem_tab Let_def)

lemma eliminate_peer_tab:
  "peer \<in> set boxes \<Longrightarrow>
   \<exists>l'. eliminate_peer digit peer (tab f, l) = Inr (tab (elim_peer_f digit peer f), l')"
  using assign_value_tab[of peer f "str_remove digit (f peer)" l]
  by (auto simp: eliminate_peer_def getitem_tab elim_peer_f_def)

lemma eliminate_box_tab:
  "box \<in> set boxes \<Longrightarrow> \<exists>l'. eliminate_box box (tab f, l) = Inr (tab (elim_box_f box f), l')"
  unfolding eliminate_box_def elim_box_f_def
  by (simp add: getitem_tab getitem_peers)
     (rule for_each_tab, rule eliminate_peer_tab, erule peers_of_boxes)

lemma eliminate_in_tab:
  "set s_values \<subseteq> set boxes \<Longrightarrow>
   \<exists>l'. eliminate_in s_values (tab f, l) = Inr (tab (eliminate_in_f s_values f), l')"
  unfolding eliminate_in_def eliminate_in_f_def
  by (rule for_each_tab) (rule eliminate_box_tab, blast)

lemma eliminate_tab: "\<exists>l'. eliminate (tab f, l) = Inr (tab (eliminate_f f), l')"
  unfolding eliminate_def eliminate_f_def
  by (simp add: boxes_with_len_tab) (rule eliminate_in_tab, simp add: with_len_f_def)

lemma naked_twins_box_tab:
  "box \<in> set boxes \<Longrightarrow>
   \<exists>l'. naked_twins_box numbers number box (tab f, l) = Inr (tab (nt_box_f numbers number box f), l')"
  using assign_value_tab[of box f "str_remove [number] (f box)" l]
  by (auto simp: naked_twins_box_def getitem_tab nt_box_f_def)

lemma naked_twins_unit_tab:
  assumes "set unit \<subseteq> set boxes"
  shows "\<exists>l'. naked_twins_unit unit (tab f, l) = Inr (tab (nt_unit_f unit f), l')"
proof -
  have "\<exists>l'. for_each (twins_num_of (map f unit))
              (\<lambda>numbers. for_each numbers (\<lambda>number. for_each unit (naked_twins_box numbers number)))
              (tab f, l) = Inr (tab (fold (nt_pair_f unit) (twins_num_of (map f unit)) f), l')"
    unfolding nt_pair_f_def
    by (intro for_each_tab naked_twins_box_tab) (use assms in blast)
  then show ?thesis
    by (simp add: naked_twins_unit_def collect_getitem_tab[OF assms] nt_unit_f_def twins_num_of_def)
qed

lemma naked_twins_tab: "\<exists>l'. naked_twins (tab f, l) = Inr (tab (naked_twins_f f), l')"
  unfolding naked_twins_def naked_twins_f_def
  by (rule for_each_tab) (rule naked_twins_unit_tab, erule unit_in_boxes)

lemma only_choice_digit_tab:
  assumes "set unit \<subseteq> set boxes"
  shows "\<exists>l'. only_choice_digit unit digit (tab f, l) = Inr (tab (oc_digit_f unit digit f), l')"
proof -
  have c: "collect (\<lambda>box. case getitem (tab f) box of Inl e \<Rightarrow> Inl e
                           | Inr x \<Rightarrow> Inr (box, digit \<in> set x)) unit
           = Inr (map (\<lambda>b. (b, digit \<in> set (f b))) unit)"
    using collect_cong[of unit _ "\<lambda>b. Inr (b, digit \<in> set (f b))"] assms
    by (simp add: collect_total getitem_tab subset_iff)
  have d: "map fst (filter snd (map (\<lambda>b. (b, digit \<in> set (f b))) unit))
           = filter (\<lambda>b. digit \<in> set (f b)) unit"
    by (induction unit) auto
  show ?thesis
  proof (cases "length (filter (\<lambda>b. digit \<in> set (f b)) unit) = 1")
    case False
    then show ?thesis
      by (simp add: only_choice_digit_def c d oc_digit_f_def)
  next
    case True
    then have "hd (filter (\<lambda>b. digit \<in> set (f b)) unit) \<in> set (filter (\<lambda>b. digit \<in> set (f b)) unit)"
      by (cases "filter (\<lambda>b. digit \<in> set (f b)) unit") auto
    with assms have "hd (filter (\<lambda>b. digit \<in> set (f b)) unit) \<in> set boxes" by auto
    from assign_value_tab[OF this, of f "[digit]" l] True show ?thesis
      by (auto simp: only_choice_digit_def c d oc_digit_f_def)
  qed
qed

lemma only_choice_tab: "\<exists>l'. only_choice (tab f, l) = Inr (tab (only_choice_f f), l')"
  unfolding only_choice_def only_choice_f_def oc_unit_f_def
  by (intro for_each_tab only_choice_digit_tab) (erule unit_in_boxes)

lemma round_tab:
  "\<exists>s1 s2 l'. eliminate (tab f, l) = Inr s1 \<and> naked_twins s1 = Inr s2 \<and>
      only_choice s2 = Inr (tab (round_f f), l')"
proof -
  obtain l1 where 1: "eliminate (tab f, l) = Inr (tab (eliminate_f f), l1)"
    using eliminate_tab by blast
  obtain l2 where 2: "naked_twins (tab (eliminate_f f), l1) = Inr (tab (naked_twins_f (eliminate_f f)), l2)"
    using naked_twins_tab by blast
  obtain l3 where 3: "only_choice (tab (naked_twins_f (eliminate_f f)), l2) = Inr (tab (round_f f), l3)"
    unfolding round_f_def using only_choice_tab by blast
  from 1 2 3 show ?thesis by blast
qed

section \<open>The units of a box (claim C9)\<close>

text \<open>
  Claim C9 as stated: every one of the 81 boxes has exactly four entries in \<open>units\<close>.
  It fails at \<open>A2\<close>, which lies on no diagonal and has three units.
\<close>

theorem C9_units_A2_counterexample:
  "getitem units ''A2'' =
     Inr [[''A1'', ''A2'', ''A3'', ''A4'', ''A5'', ''A6'', ''A7'', ''A8'', ''A9''],
          [''A2'', ''B2'', ''C2'', ''D2'', ''E2'', ''F2'', ''G2'', ''H2'', ''I2''],
          [''A1'', ''A2'', ''A3'', ''B1'', ''B2'', ''B3'', ''C1'', ''C2'', ''C3'']]"
  by (simp add: getitem_units in_boxes units_of_def unitlist_eval)

text \<open>
  Claim C9, amended: for every box \<open>s\<close>, \<open>units[s]\<close> holds the row, the column and the
  square of \<open>s\<close> and each of the two diagonals that \<open>s\<close> lies on: three units plus the number
  of diagonals through \<open>s\<close>, so three, four or five.
\<close>

theorem C9_units_count:
  assumes "s \<in> set boxes"
  shows "\<exists>us. getitem units s = Inr us \<and> us = filter (\<lambda>u. s \<in> set u) unitlist \<and>
           length us = 3 + length (filter (\<lambda>u. s \<in> set u) diagonals_u) \<and>
           length us \<in> {3, 4, 5}"
proof -
  from assms obtain r c where s: "s = [r, c]" "r \<in> set rows" "c \<in> set cols"
    by (blast dest: boxes_shape)
  have len: "length (units_of s) = 3 + length (filter (\<lambda>u. s \<in> set u) diagonals_u)"
    unfolding s(1) by (rule length_units_of[OF s(2,3)])
  define n where "n = length (filter (\<lambda>u. s \<in> set u) diagonals_u)"
  have "n \<le> length diagonals_u"
    unfolding n_def by (rule length_filter_le)
  also have "length diagonals_u = 2" by (simp add: diagonals_u_def)
  finally have "n = 0 \<or> n = 1 \<or> n = 2" by arith
  then have "length (units_of s) \<in> {3, 4, 5}" using len unfolding n_def[symmetric] by auto
  with len assms show ?thesis
    by (simp add: getitem_units units_of_def)
qed

theorem C9_units_count_witness:
  "''E5'' \<in> set boxes \<and>
   (\<exists>us. getitem units ''E5'' = Inr us \<and> us = filter (\<lambda>u. ''E5'' \<in> set u) unitlist \<and>
      length us = 3 + length (filter (\<lambda>u. ''E5'' \<in> set u) diagonals_u) \<and> length us \<in> {3, 4, 5})"
proof -
  have h: "''E5'' \<in> set boxes" by (simp add: in_boxes)
  show ?thesis by (intro conjI h C9_units_count[OF h])
qed

section \<open>Parsing (claim C2)\<close>

text \<open>The strings \<^verbatim>\<open>grid_values\<close> collects: one per character that is a digit or a dot.\<close>

definition valid_char :: "char \<Rightarrow> bool" where
  "valid_char c = (c \<in> set cols \<or> c = CHR ''.'')"

definition char_value :: "char \<Rightarrow> string" where
  "char_value c = (if c = CHR ''.'' then cols else [c])"

lemma dot_not_digit: "CHR ''.'' \<notin> set cols"
  by (simp add: cols_eval)

lemma grid_chars:
  "concat (map (\<lambda>c. (if c \<in> set cols then [[c]] else []) @ (if c = CHR ''.'' then [cols] else [])) grid)
   = map char_value (filter valid_char grid)"
  using dot_not_digit by (induction grid) (auto simp: valid_char_def char_value_def)

lemma grid_values_eq:
  "grid_values grid =
     (if length (filter valid_char grid) = 81
      then Inr (zip boxes (map char_value (filter valid_char grid)))
      else Inl AssertionError)"
proof (cases "length (filter valid_char grid) = 81")
  case True
  then have "map fst (zip boxes (map char_value (filter valid_char grid))) = boxes"
    by (simp add: length_boxes)
  then have "py_dict (zip boxes (map char_value (filter valid_char grid)))
             = zip boxes (map char_value (filter valid_char grid))"
    by (intro py_dict_distinct) (simp add: distinct_boxes)
  with True show ?thesis
    by (simp add: grid_values_def grid_chars)
next
  case False
  then show ?thesis by (simp add: grid_values_def grid_chars)
qed

lemma zip_boxes_tab: "length xs = 81 \<Longrightarrow> zip boxes xs = tab (\<lambda>b. cell (zip boxes xs) b)"
  by (rule tab_cell[symmetric]) (simp add: wf_grid_def keys_def length_boxes)

lemma grid_values_wf: "grid_values grid = Inr v \<Longrightarrow> wf_grid v"
  by (auto simp: grid_values_eq wf_grid_def keys_def length_boxes split: if_splits)

text \<open>
  Claim C2 as stated: every input that is not exactly 81 characters long, or that holds a
  character other than \<open>1\<close>--\<open>9\<close> and the dot, is rejected. It fails for an input of 82 characters
  that holds an \<open>X\<close> and 81 dots: the \<open>X\<close> is skipped and the grid of 81 unknown boxes comes back.
\<close>

theorem C2_skips_invalid_counterexample:
  "grid_values (CHR ''X'' # replicate 81 (CHR ''.'')) = Inr (zip boxes (replicate 81 ''123456789''))"
proof -
  have "filter valid_char (CHR ''X'' # replicate 81 (CHR ''.'')) = replicate 81 (CHR ''.'')"
    by (simp add: valid_char_def cols_eval)
  then show ?thesis
    by (simp add: grid_values_eq char_value_def cols_eval)
qed

text \<open>
  Claim C2, amended: \<^verbatim>\<open>grid_values\<close> skips every character other than \<open>1\<close>--\<open>9\<close> and the dot, and
  fails (with \<^verbatim>\<open>AssertionError\<close>) exactly when the number of remaining characters is not 81;
  otherwise it maps the boxes, in order, to the remaining characters (a dot to \<open>123456789\<close>).
  So every input shorter than 81 characters is rejected, and so is every input of exactly 81
  characters that holds another character (an \<open>X\<close>, say); a failure leaves \<^verbatim>\<open>solve\<close> before
  \<^verbatim>\<open>search\<close> is entered.
\<close>

theorem C2_grid_values:
  "grid_values grid =
     (if length (filter valid_char grid) = 81
      then Inr (zip boxes (map char_value (filter valid_char grid)))
      else Inl AssertionError) \<and>
   (length grid < 81 \<longrightarrow> grid_values grid = Inl AssertionError) \<and>
   (length grid = 81 \<and> (\<exists>c \<in> set grid. \<not> valid_char c) \<longrightarrow>
      grid_values grid = Inl AssertionError) \<and>
   (\<forall>e. grid_values grid = Inl e \<longrightarrow> solve grid assignments = Inl e)"
proof (intro conjI impI allI)
  show "grid_values grid =
     (if length (filter valid_char grid) = 81
      then Inr (zip boxes (map char_value (filter valid_char grid)))
      else Inl AssertionError)"
    by (rule grid_values_eq)
  have le: "length (filter valid_char grid) \<le> length grid" by (rule length_filter_le)
  show "grid_values grid = Inl AssertionError" if "length grid < 81"
  proof -
    from le that have "length (filter valid_char grid) < 81" by (rule le_less_trans)
    then show ?thesis by (simp add: grid_values_eq)
  qed
  show "grid_values grid = Inl AssertionError"
    if "length grid = 81 \<and> (\<exists>c \<in> set grid. \<not> valid_char c)"
  proof -
    from that obtain c where "c \<in> set grid" "\<not> valid_char c" by blast
    then have "length (filter valid_char grid) < length grid"
      by (intro length_filter_less)
    with that show ?thesis by (simp add: grid_values_eq)
  qed
  show "solve grid assignments = Inl e" if "grid_values grid = Inl e" for e
    using that by (simp add: solve_def)
qed

theorem C2_grid_values_witness:
  "length (replicate 80 (CHR ''.'')) < 81 \<and>
   grid_values (replicate 80 (CHR ''.'')) = Inl AssertionError \<and>
   solve (replicate 80 (CHR ''.'')) [] = Inl AssertionError \<and>
   length (CHR ''X'' # replicate 80 (CHR ''.'')) = 81 \<and>
   \<not> valid_char (CHR ''X'') \<and>
   grid_values (CHR ''X'' # replicate 80 (CHR ''.'')) = Inl AssertionError"
proof -
  have 1: "length (replicate 80 (CHR ''.'')) < 81" by simp
  have 2: "length (CHR ''X'' # replicate 80 (CHR ''.'')) = 81" by simp
  have 3: "CHR ''X'' \<in> set (CHR ''X'' # replicate 80 (CHR ''.''))" by simp
  have 4: "\<not> valid_char (CHR ''X'')" by (simp add: valid_char_def cols_eval)
  from C2_grid_values[of "replicate 80 (CHR ''.'')" "[]"] 1
  have a: "grid_values (replicate 80 (CHR ''.'')) = Inl AssertionError"
    "solve (replicate 80 (CHR ''.'')) [] = Inl AssertionError" by blast+
  from C2_grid_values[of "CHR ''X'' # replicate 80 (CHR ''.'')" "[]"] 2 3 4
  have c: "grid_values (CHR ''X'' # replicate 80 (CHR ''.'')) = Inl AssertionError" by blast
  from 1 2 4 a c show ?thesis by blast
qed

section \<open>Assignment and object identity (claim C5)\<close>

text \<open>
  Whether \<^verbatim>\<open>assign_value\<close> returns a new dictionary or its argument is a question about
  objects, so here the dictionaries live in a store, from references to dictionaries, and a
  Python variable holds a reference. \<^verbatim>\<open>values[box] = value\<close> writes through the reference,
  \<^verbatim>\<open>values.copy()\<close> is the content at that moment, and \<^verbatim>\<open>return values\<close> returns the
  reference that came in. The content that results is \<open>assign_value\<close> above, which the rest of
  the development uses: every caller rebinds its variable to the result, and \<^verbatim>\<open>search\<close>
  copies the dictionary before it branches.
\<close>

type_synonym ref = nat

record world =
  store :: "ref \<Rightarrow> grid"
  assignments :: "grid list"

definition assign_value_obj :: "ref \<Rightarrow> string \<Rightarrow> string \<Rightarrow> world \<Rightarrow> ref \<times> world" where
  "assign_value_obj values box value w =
     (let stored = setitem (store w values) box value;
          w1 = w\<lparr>store := (store w)(values := stored)\<rparr>;
          w2 = (if length value = 1
                then w1\<lparr>assignments := assignments w1 @ [store w1 values]\<rparr>
                else w1)
      in (values, w2))"

lemma assign_value_obj_content:
  "assign_value_obj r box x w = (r', w') \<Longrightarrow>
   assign_value (store w r) box x (assignments w) = (store w' r', assignments w')"
  by (auto simp: assign_value_obj_def assign_value_def Let_def split: if_splits)

text \<open>
  Claim C5 as stated: the result is a new grid with the cell set to the singleton of the
  digit, and the input grid is left intact. It fails: the reference returned is the one passed
  in, and the dictionary behind it has changed, here at \<open>A1\<close> from \<open>123456789\<close> to \<open>5\<close>.
\<close>

theorem C5_aliases_input_counterexample:
  "fst (assign_value_obj 0 ''A1'' ''5''
         \<lparr>store = (\<lambda>r. zip boxes (replicate 81 ''123456789'')), assignments = []\<rparr>) = 0 \<and>
   getitem (zip boxes (replicate 81 ''123456789'')) ''A1'' = Inr ''123456789'' \<and>
   getitem (store (snd (assign_value_obj 0 ''A1'' ''5''
         \<lparr>store = (\<lambda>r. zip boxes (replicate 81 ''123456789'')), assignments = []\<rparr>)) 0) ''A1''
     = Inr ''5''"
proof -
  have b: "boxes = ''A1'' # tl boxes"
    by (simp add: boxes_def cross_def rows_eval cols_eval)
  have r: "replicate 81 ''123456789'' = ''123456789'' # replicate 80 ''123456789''"
    by (simp add: replicate_Suc[symmetric] del: replicate_Suc)
  have z: "zip boxes (replicate 81 ''123456789'') =
        (''A1'', ''123456789'') # zip (tl boxes) (replicate 80 ''123456789'')"
    by (subst b, subst r) simp
  show ?thesis
    unfolding z by (simp add: assign_value_obj_def setitem_def getitem_def Let_def)
qed

text \<open>
  Claim C5, amended: \<^verbatim>\<open>assign_value\<close> stores the given string (of any length, not only a
  single digit) under the box in the dictionary it was given, in place, and returns that same
  dictionary; every other key of it, and every other dictionary, is unchanged. When the string
  has length one, a copy of the updated dictionary is appended to \<^verbatim>\<open>assignments\<close>; otherwise
  \<^verbatim>\<open>assignments\<close> is unchanged.
\<close>

theorem C5_assign_value_in_place:
  "(case assign_value_obj r box x w of (r', w') \<Rightarrow>
      r' = r \<and>
      getitem (store w' r) box = Inr x \<and>
      (\<forall>k. k \<noteq> box \<longrightarrow> getitem (store w' r) k = getitem (store w r) k) \<and>
      (\<forall>q. q \<noteq> r \<longrightarrow> store w' q = store w q) \<and>
      assignments w' = (if length x = 1 then assignments w @ [store w' r] else assignments w))"
  by (simp add: assign_value_obj_def Let_def setitem_def getitem_def update_conv')

theorem C5_assign_value_in_place_witness:
  "(case assign_value_obj 0 ''A1'' ''12'' \<lparr>store = (\<lambda>r. [(''A1'', ''123''), (''A2'', ''4'')]), assignments = []\<rparr>
    of (r', w') \<Rightarrow>
      r' = 0 \<and> getitem (store w' 0) ''A1'' = Inr ''12'' \<and>
      getitem (store w' 0) ''A2'' = Inr ''4'' \<and> store w' 1 = [(''A1'', ''123''), (''A2'', ''4'')] \<and>
      assignments w' = [])"
  using C5_assign_value_in_place[of 0 "''A1''" "''12''"
      "\<lparr>store = (\<lambda>r. [(''A1'', ''123''), (''A2'', ''4'')]), assignments = []\<rparr>"]
  by (auto simp: getitem_def split: prod.splits)

section \<open>The rules on tables\<close>

definition below :: "(string \<Rightarrow> string) \<Rightarrow> (string \<Rightarrow> string) \<Rightarrow> bool" where
  "below g f = (\<forall>b \<in> set boxes. subseq (g b) (f b))"

lemma shrinks_tab: "shrinks (tab f) (tab g) \<longleftrightarrow> below g f"
  unfolding shrinks_def tab_def below_def
  by (simp add: list_all2_map1 list_all2_map2 list_all2_same)

lemma below_refl: "below f f"
  by (simp add: below_def)

lemma below_trans: "below h g \<Longrightarrow> below g f \<Longrightarrow> below h f"
  unfolding below_def by (blast intro: subseq_order.trans)

lemma below_empty: "below g f \<Longrightarrow> b \<in> set boxes \<Longrightarrow> f b = [] \<Longrightarrow> g b = []"
  by (auto simp: below_def)

lemma below_same_length:
  "below g f \<Longrightarrow> b \<in> set boxes \<Longrightarrow> length (g b) = length (f b) \<Longrightarrow> g b = f b"
  by (auto simp: below_def intro: subseq_same_length)

lemma below_length: "below g f \<Longrightarrow> b \<in> set boxes \<Longrightarrow> length (g b) \<le> length (f b)"
  by (auto simp: below_def dest: list_emb_length)

lemma subseq_set: "subseq xs ys \<Longrightarrow> set xs \<subseteq> set ys"
  by (auto elim: list_emb_set)

lemma below_set: "below g f \<Longrightarrow> b \<in> set boxes \<Longrightarrow> set (g b) \<subseteq> set (f b)"
  by (simp add: below_def subseq_set)

lemma eliminate_in_f_below: "set s_values \<subseteq> set boxes \<Longrightarrow> below (eliminate_in_f s_values f) f"
proof -
  assume a: "set s_values \<subseteq> set boxes"
  obtain l' where "eliminate_in s_values (tab f, []) = Inr (tab (eliminate_in_f s_values f), l')"
    using eliminate_in_tab[OF a] by blast
  then have "step_ok (tab f, []) (tab (eliminate_in_f s_values f), l')"
    by (rule eliminate_in_step_ok)
  then show ?thesis by (simp add: step_ok_def shrinks_tab)
qed

lemma eliminate_f_below: "below (eliminate_f f) f"
  unfolding eliminate_f_def by (rule eliminate_in_f_below) (simp add: with_len_f_def)

lemma naked_twins_f_below: "below (naked_twins_f f) f"
proof -
  obtain l' where "naked_twins (tab f, []) = Inr (tab (naked_twins_f f), l')"
    using naked_twins_tab by blast
  then have "step_ok (tab f, []) (tab (naked_twins_f f), l')"
    by (rule naked_twins_step_ok)
  then show ?thesis by (simp add: step_ok_def shrinks_tab)
qed

lemma only_choice_f_below: "below (only_choice_f f) f"
proof -
  obtain l' where "only_choice (tab f, []) = Inr (tab (only_choice_f f), l')"
    using only_choice_tab by blast
  then have "step_ok (tab f, []) (tab (only_choice_f f), l')"
    by (rule only_choice_step_ok)
  then show ?thesis by (simp add: step_ok_def shrinks_tab)
qed

lemma round_f_below_eliminate: "below (round_f f) (eliminate_f f)"
  unfolding round_f_def by (blast intro: below_trans only_choice_f_below naked_twins_f_below)

lemma round_f_below: "below (round_f f) f"
  by (blast intro: below_trans round_f_below_eliminate eliminate_f_below)

lemma total_tab: "total (tab f) = sum_list (map (\<lambda>b. length (f b)) boxes)"
  by (simp add: total_def tab_def comp_def)

text \<open>One unfolding of \<open>reduce_puzzle\<close> on a table.\<close>

lemma reduce_puzzle_tab_unfold:
  "\<exists>l1. prefix l l1 \<and>
     reduce_puzzle (tab f, l) =
       (if with_len_f (round_f f) 0 \<noteq> [] then Inr (PyFalse, l1)
        else if length (with_len_f f 1) = length (with_len_f (round_f f) 1)
             then Inr (PyDict (tab (round_f f)), l1)
             else reduce_puzzle (tab (round_f f), l1))"
proof -
  obtain s1 s2 l1 where r: "eliminate (tab f, l) = Inr s1" "naked_twins s1 = Inr s2"
      "only_choice s2 = Inr (tab (round_f f), l1)"
    using round_tab by blast
  then have "step_ok (tab f, l) (tab (round_f f), l1)" by (rule round_step_ok)
  then have "prefix l l1" by (simp add: step_ok_def)
  moreover have "reduce_puzzle (tab f, l) =
       (if with_len_f (round_f f) 0 \<noteq> [] then Inr (PyFalse, l1)
        else if length (with_len_f f 1) = length (with_len_f (round_f f) 1)
             then Inr (PyDict (tab (round_f f)), l1)
             else reduce_puzzle (tab (round_f f), l1))"
    by (simp add: reduce_puzzle.simps[of "tab f" l] r boxes_with_len_tab Let_def)
  ultimately show ?thesis by blast
qed

text \<open>What \<open>reduce_puzzle\<close> returns on a table: it always returns, \<^verbatim>\<open>False\<close> or a table below
  the input with no empty string, which is the result of a last round that left the number of
  solved boxes as it was.\<close>

definition stalled_round :: "(string \<Rightarrow> string) \<Rightarrow> (string \<Rightarrow> string) \<Rightarrow> (string \<Rightarrow> string) \<Rightarrow> bool" where
  "stalled_round f f0 f' =
     (below f0 f \<and> f' = round_f f0 \<and> with_len_f f' 0 = [] \<and>
      length (with_len_f f0 1) = length (with_len_f f' 1))"

lemma reduce_puzzle_tab:
  "\<exists>r l'. reduce_puzzle (tab f, l) = Inr (r, l') \<and> prefix l l' \<and>
     (r = PyFalse \<or> (\<exists>f0 f'. r = PyDict (tab f') \<and> stalled_round f f0 f'))"
proof (induction "total (tab f)" arbitrary: f l rule: less_induct)
  case less
  obtain l1 where l1: "prefix l l1" and u: "reduce_puzzle (tab f, l) =
       (if with_len_f (round_f f) 0 \<noteq> [] then Inr (PyFalse, l1)
        else if length (with_len_f f 1) = length (with_len_f (round_f f) 1)
             then Inr (PyDict (tab (round_f f)), l1)
             else reduce_puzzle (tab (round_f f), l1))"
    using reduce_puzzle_tab_unfold by blast
  show ?case
  proof (cases "with_len_f (round_f f) 0 \<noteq> []")
    case True
    with u l1 show ?thesis by auto
  next
    case ne: False
    show ?thesis
    proof (cases "length (with_len_f f 1) = length (with_len_f (round_f f) 1)")
      case True
      with ne have "stalled_round f f (round_f f)"
        by (simp add: stalled_round_def below_refl)
      with u l1 ne True show ?thesis by auto
    next
      case False
      then have "tab (round_f f) \<noteq> tab f"
        by (metis boxes_with_len_tab)
      moreover have "shrinks (tab f) (tab (round_f f))"
        by (simp add: shrinks_tab round_f_below)
      ultimately have "total (tab (round_f f)) < total (tab f)"
        by (rule shrinks_total_less[rotated])
      from less[OF this, of l1] obtain r l' where
        rec: "reduce_puzzle (tab (round_f f), l1) = Inr (r, l')" "prefix l1 l'"
        "r = PyFalse \<or> (\<exists>f0 f'. r = PyDict (tab f') \<and> stalled_round (round_f f) f0 f')"
        by blast
      from rec(3) have "r = PyFalse \<or> (\<exists>f0 f'. r = PyDict (tab f') \<and> stalled_round f f0 f')"
        unfolding stalled_round_def using round_f_below[of f] by (blast intro: below_trans)
      moreover from l1 rec(2) have "prefix l l'" by (rule prefix_order.trans)
      ultimately show ?thesis using u ne False rec(1) by auto
    qed
  qed
qed

lemma stalled_round_below: "stalled_round f f0 f' \<Longrightarrow> below f' f"
  unfolding stalled_round_def by (blast intro: below_trans round_f_below)

section \<open>Elimination on tables\<close>

lemma fold_elim_peer_f:
  "distinct ps \<Longrightarrow>
   fold (elim_peer_f d) ps f y = (if y \<in> set ps then str_remove d (f y) else f y)"
proof (induction ps arbitrary: f)
  case Nil
  then show ?case by simp
next
  case (Cons p ps)
  then show ?case by (auto simp: elim_peer_f_def)
qed

lemma elim_box_f_apply:
  "elim_box_f x f y = (if y \<in> set (peers_of x) then str_remove (f x) (f y) else f y)"
  unfolding elim_box_f_def by (rule fold_elim_peer_f) (rule distinct_peers_of)

lemma not_self_peer: "x \<notin> set (peers_of x)"
  by (simp add: in_peers_of)

lemma str_remove_Nil: "str_remove [] s = s"
  by (cases s) simp_all

lemma str_remove_char: "str_remove [c] s = filter (\<lambda>x. x \<noteq> c) s"
  by (induction s) auto

lemma subseq_singleton_cases: "subseq r [d] \<Longrightarrow> r = [] \<or> r = [d]"
  by (cases r) (auto simp: subseq_Cons2_iff split: if_splits)

lemma str_remove_singleton_cases: "str_remove old [d] = [] \<or> str_remove old [d] = [d]"
  by (rule subseq_singleton_cases) (rule subseq_str_remove)

lemma elim_box_f_subseq: "subseq (elim_box_f x f y) (f y)"
  by (simp add: elim_box_f_apply subseq_str_remove)

lemma fold_elim_box_f_subseq: "subseq (fold elim_box_f order f y) (f y)"
proof (induction order arbitrary: f)
  case Nil
  then show ?case by simp
next
  case (Cons x xs)
  have "subseq (fold elim_box_f xs (elim_box_f x f) y) (elim_box_f x f y)" by (rule Cons.IH)
  then show ?case using elim_box_f_subseq[of x f y] by (auto intro: subseq_order.trans)
qed

text \<open>Two peers that hold the same single digit: whichever of them \<^verbatim>\<open>eliminate\<close> processes
  first empties the other, and an empty string stays empty.\<close>

lemma conflict_empties:
  assumes p: "b \<in> set (peers_of a)"
    and st: "f a = [] \<or> f b = [] \<or> (f a = [d] \<and> f b = [d] \<and> (a \<in> set order \<or> b \<in> set order))"
  shows "fold elim_box_f order f a = [] \<or> fold elim_box_f order f b = []"
  using st
proof (induction order arbitrary: f)
  case Nil
  then show ?case by auto
next
  case (Cons x xs)
  have q: "a \<in> set (peers_of b)" using p by (rule peers_of_sym)
  let ?f1 = "elim_box_f x f"
  have "?f1 a = [] \<or> ?f1 b = [] \<or> (?f1 a = [d] \<and> ?f1 b = [d] \<and> (a \<in> set xs \<or> b \<in> set xs))"
  proof (cases "f a = [] \<or> f b = []")
    case True
    then show ?thesis
      using elim_box_f_subseq[of x f a] elim_box_f_subseq[of x f b] by auto
  next
    case False
    with Cons.prems have ab: "f a = [d]" "f b = [d]" "a \<in> set (x # xs) \<or> b \<in> set (x # xs)"
      by auto
    show ?thesis
    proof (cases "x = a \<or> x = b")
      case True
      then show ?thesis
        using ab p q by (auto simp: elim_box_f_apply)
    next
      case nx: False
      have "?f1 a = [] \<or> ?f1 a = [d]"
        using elim_box_f_subseq[of x f a] ab(1) by (auto dest: subseq_singleton_cases)
      moreover have "?f1 b = [] \<or> ?f1 b = [d]"
        using elim_box_f_subseq[of x f b] ab(2) by (auto dest: subseq_singleton_cases)
      ultimately show ?thesis using nx ab(3) by auto
    qed
  qed
  from Cons.IH[OF this] show ?case by simp
qed

lemma length_filter_all: "length (filter P xs) = length xs \<longleftrightarrow> (\<forall>x \<in> set xs. P x)"
proof (induction xs)
  case Nil
  then show ?case by simp
next
  case (Cons x xs)
  have "length (filter P xs) \<le> length xs" by (rule length_filter_le)
  with Cons show ?case by (auto simp del: length_filter_le)
qed

lemma with_len_all:
  "(\<forall>b \<in> set boxes. length (f b) = n) \<longleftrightarrow> length (with_len_f f n) = 81"
  using length_filter_all[of "\<lambda>b. length (f b) = n" boxes]
  by (simp add: with_len_f_def length_boxes)

lemma with_len_all_eq: "(\<forall>b \<in> set boxes. length (f b) = n) \<Longrightarrow> with_len_f f n = boxes"
  by (simp add: with_len_f_def)

lemma eliminate_f_conflict:
  assumes all1: "\<forall>x \<in> set boxes. length (f x) = 1"
    and a: "a \<in> set boxes" and p: "b \<in> set (peers_of a)" and eq: "f a = f b"
  shows "\<exists>x \<in> set boxes. eliminate_f f x = []"
proof -
  from all1 a obtain d where d: "f a = [d]"
    by (cases "f a") auto
  have b: "b \<in> set boxes" using p by (rule peers_of_boxes)
  have "fold elim_box_f boxes f a = [] \<or> fold elim_box_f boxes f b = []"
    by (rule conflict_empties[OF p]) (use d eq a in auto)
  then show ?thesis
    using a b all1 by (auto simp: eliminate_f_def eliminate_in_f_def with_len_all_eq)
qed

text \<open>The state in which a round can stall with all 81 boxes solved.\<close>

definition conflict_free :: "(string \<Rightarrow> string) \<Rightarrow> bool" where
  "conflict_free f = (\<forall>a \<in> set boxes. \<forall>b \<in> set (peers_of a). f a \<noteq> f b)"

lemma stalled_all_solved:
  assumes sr: "stalled_round f f0 f'" and all1: "\<forall>x \<in> set boxes. length (f' x) = 1"
  shows "conflict_free f'"
proof -
  from sr have f': "f' = round_f f0" and ne: "with_len_f f' 0 = []"
    and cnt: "length (with_len_f f0 1) = length (with_len_f f' 1)"
    unfolding stalled_round_def by blast+
  from all1 cnt have all0: "\<forall>x \<in> set boxes. length (f0 x) = 1"
    by (simp add: with_len_all)
  have same: "f' x = f0 x" if "x \<in> set boxes" for x
    using round_f_below[of f0] that all0 all1 unfolding f'[symmetric]
    by (intro below_same_length) auto
  have "f0 a \<noteq> f0 b" if a: "a \<in> set boxes" and b: "b \<in> set (peers_of a)" for a b
  proof
    assume "f0 a = f0 b"
    from eliminate_f_conflict[OF all0 a b this] obtain x where
      x: "x \<in> set boxes" "eliminate_f f0 x = []" by blast
    have "f' x = []"
      using round_f_below_eliminate[of f0] x unfolding f'[symmetric]
      by (rule below_empty)
    with all1 x(1) show False by auto
  qed
  then show ?thesis
    unfolding conflict_free_def using same peers_of_boxes by metis
qed

section \<open>Solved grids\<close>

text \<open>A fully solved grid: the 81 boxes are its keys, every box holds one digit of \<open>1\<close>--\<open>9\<close>,
  and in each of the 29 units each digit is held by exactly one box.\<close>

definition solved_grid :: "grid \<Rightarrow> bool" where
  "solved_grid v =
     (keys v = boxes \<and>
      (\<forall>b \<in> set boxes. \<exists>d \<in> set cols. getitem v b = Inr [d]) \<and>
      (\<forall>u \<in> set unitlist. \<forall>d \<in> set cols. length (filter (\<lambda>b. getitem v b = Inr [d]) u) = 1))"

definition cands_ok :: "(string \<Rightarrow> string) \<Rightarrow> bool" where
  "cands_ok f = (\<forall>b \<in> set boxes. set (f b) \<subseteq> set cols)"

lemma cands_ok_below: "below g f \<Longrightarrow> cands_ok f \<Longrightarrow> cands_ok g"
  unfolding cands_ok_def using below_set by blast

lemma length_unitlist: "length unitlist = 29"
  by (simp add: unitlist_def row_units_def column_units_def square_units_eval diagonals_u_def
      rows_eval cols_eval)

lemma solved_grid_tab:
  assumes ok: "cands_ok f" and all1: "\<forall>x \<in> set boxes. length (f x) = 1" and cf: "conflict_free f"
  shows "solved_grid (tab f)"
  unfolding solved_grid_def
proof (intro conjI ballI)
  show "keys (tab f) = boxes" by (rule keys_tab)
next
  fix b assume b: "b \<in> set boxes"
  with all1 obtain d where d: "f b = [d]" by (cases "f b") auto
  with ok b have "d \<in> set cols" by (auto simp: cands_ok_def)
  with d b show "\<exists>d \<in> set cols. getitem (tab f) b = Inr [d]"
    by (auto simp: getitem_tab)
next
  fix u d assume u: "u \<in> set unitlist" and dc: "d \<in> set cols"
  from u have ub: "set u \<subseteq> set boxes" and len: "length u = 9" and dist: "distinct u"
    using unit_in_boxes unit_shape by auto
  let ?D = "(\<lambda>c. [c]) ` set cols"
  have cardD: "card ?D = 9"
    by (subst card_image) (simp_all add: inj_on_def cols_eval)
  have inj: "inj_on f (set u)"
  proof (rule inj_onI)
    fix a b assume ab: "a \<in> set u" "b \<in> set u" "f a = f b"
    show "a = b"
    proof (rule ccontr)
      assume "a \<noteq> b"
      with u ab have "b \<in> set (peers_of a)" by (intro unit_peers)
      with cf ab ub show False by (auto simp: conflict_free_def)
    qed
  qed
  then have dm: "distinct (map f u)" using dist by (simp add: distinct_map)
  have sub: "set (map f u) \<subseteq> ?D"
  proof
    fix x assume "x \<in> set (map f u)"
    then obtain b where b: "b \<in> set u" "x = f b" by auto
    with ub all1 have "length (f b) = 1" by auto
    then obtain c where c: "f b = [c]" by (cases "f b") auto
    from ub b have "b \<in> set boxes" by auto
    with ok have "set (f b) \<subseteq> set cols" by (simp add: cands_ok_def)
    with c have "c \<in> set cols" by simp
    with b c show "x \<in> ?D" by auto
  qed
  have "card (set (map f u)) = length (map f u)" using dm by (rule distinct_card)
  then have "card (set (map f u)) = 9" using len by simp
  with sub cardD have "set (map f u) = ?D"
    by (intro card_subset_eq) auto
  with dc have "[d] \<in> set (map f u)" by auto
  with dm have "length (filter (\<lambda>y. [d] = y) (map f u)) = 1"
    by (rule length_filter_eq_distinct)
  then have "length (filter (\<lambda>b. f b = [d]) u) = 1"
    by (simp add: filter_map comp_def eq_commute)
  moreover have "filter (\<lambda>b. getitem (tab f) b = Inr [d]) u = filter (\<lambda>b. f b = [d]) u"
    by (rule filter_cong) (use ub in \<open>auto simp: getitem_tab\<close>)
  ultimately show "length (filter (\<lambda>b. getitem (tab f) b = Inr [d]) u) = 1" by simp
qed

section \<open>Search on tables\<close>

definition branch_pairs :: "(string \<Rightarrow> string) \<Rightarrow> (nat \<times> string) list" where
  "branch_pairs f = map (\<lambda>b. (length (f b), b)) (filter (\<lambda>b. 1 < length (f b)) boxes)"

definition good_result :: "pyval \<Rightarrow> bool" where
  "good_result r = (r = PyFalse \<or> r = PyNone \<or> (\<exists>g. r = PyDict g \<and> solved_grid g))"

lemma all_solved_tab:
  "set bs \<subseteq> set boxes \<Longrightarrow> all_solved (tab f) bs = Inr (\<forall>b \<in> set bs. length (f b) = 1)"
  by (induction bs) (auto simp: getitem_tab)

lemma unsolved_tab:
  "set bs \<subseteq> set boxes \<Longrightarrow>
   unsolved (tab f) bs = Inr (map (\<lambda>b. (length (f b), b)) (filter (\<lambda>b. 1 < length (f b)) bs))"
  by (induction bs) (auto simp: getitem_tab)

lemma py_min_fold:
  fixes b :: "'a::linorder"
  shows "fold (\<lambda>y best. if y < best then y else best) ys b \<in> insert b (set ys) \<and>
         (\<forall>x \<in> insert b (set ys). fold (\<lambda>y best. if y < best then y else best) ys b \<le> x)"
proof (induction ys arbitrary: b)
  case Nil
  then show ?case by simp
next
  case (Cons y ys)
  let ?b' = "if y < b then y else b"
  from Cons.IH[of ?b'] show ?case by (auto split: if_splits)
qed

lemma py_min_least: "py_min xs = Inr m \<Longrightarrow> x \<in> set xs \<Longrightarrow> m \<le> x"
  using py_min_fold by (fastforce simp: py_min_def split: list.splits)

lemma py_min_nonempty: "xs \<noteq> [] \<Longrightarrow> \<exists>m. py_min xs = Inr m"
  by (cases xs) (simp_all add: py_min_def)

lemma tab_not_Nil: "tab f \<noteq> []"
  by (simp add: tab_def boxes_def cross_def rows_eval cols_eval)

lemma assign_value_tab_single:
  "s \<in> set boxes \<Longrightarrow>
   assign_value (tab f) s [c] l = (tab (f(s := [c])), l @ [tab (f(s := [c]))])"
  by (simp add: assign_value_def setitem_tab Let_def)

text \<open>Where \<open>search\<close> branches: after a reduction to a table that is not solved everywhere,
  on the box of the least pair.\<close>

lemma search_branch:
  assumes "reduce_puzzle (tab f, l) = Inr (PyDict (tab f'), l1)"
    and "\<not> (\<forall>b \<in> set boxes. length (f' b) = 1)"
    and "py_min (branch_pairs f') = Inr (n, s)"
  shows "search (tab f, l) = search_loop (tab f') s (f' s) l1 \<and> s \<in> set boxes"
proof -
  from assms(3) have "(n, s) \<in> set (branch_pairs f')" by (rule py_min_member)
  then have s: "s \<in> set boxes" by (auto simp: branch_pairs_def)
  have a: "all_solved (tab f') boxes = Inr False"
    using assms(2) by (simp add: all_solved_tab)
  have u: "unsolved (tab f') boxes = Inr (branch_pairs f')"
    by (simp add: unsolved_tab branch_pairs_def)
  have g: "getitem (tab f') s = Inr (f' s)"
    using s by (rule getitem_tab)
  show ?thesis
    by (simp add: search.simps(1)[of "tab f" l] assms(1,3) tab_not_Nil a u g s)
qed

lemma search_loop_tab:
  assumes IH: "\<And>c l. c \<in> set cs \<Longrightarrow>
      \<exists>r l'. search (tab (f(s := [c])), l) = Inr (r, l') \<and> prefix l l' \<and> good_result r"
    and s: "s \<in> set boxes"
  shows "\<exists>r l'. search_loop (tab f) s cs l = Inr (r, l') \<and> prefix l l' \<and> good_result r"
  using IH
proof (induction cs arbitrary: l)
  case Nil
  then show ?case by (simp add: good_result_def)
next
  case (Cons c cs)
  let ?l1 = "l @ [tab (f(s := [c]))]"
  have "c \<in> set (c # cs)" by simp
  from Cons.prems[OF this, of ?l1] obtain r l2 where
    r: "search (tab (f(s := [c])), ?l1) = Inr (r, l2)" "prefix ?l1 l2" "good_result r"
    by blast
  have pl: "prefix l l2" using r(2) by (auto simp: prefix_def)
  show ?case
  proof (cases "truthy r")
    case True
    with r pl s show ?thesis
      by (auto simp: assign_value_tab_single Let_def)
  next
    case False
    have "\<exists>r' l'. search_loop (tab f) s cs l2 = Inr (r', l') \<and> prefix l2 l' \<and> good_result r'"
      by (rule Cons.IH) (rule Cons.prems, simp)
    then obtain r' l' where
      r': "search_loop (tab f) s cs l2 = Inr (r', l')" "prefix l2 l'" "good_result r'"
      by blast
    from pl r'(2) have "prefix l l'" by (rule prefix_order.trans)
    with False r r' s show ?thesis
      by (auto simp: assign_value_tab_single Let_def)
  qed
qed

lemma search_tab:
  assumes "cands_ok f"
  shows "\<exists>r l'. search (tab f, l) = Inr (r, l') \<and> prefix l l' \<and> good_result r"
  using assms
proof (induction "total (tab f)" arbitrary: f l rule: less_induct)
  case less
  obtain r1 l1 where r1: "reduce_puzzle (tab f, l) = Inr (r1, l1)" "prefix l l1"
    "r1 = PyFalse \<or> (\<exists>f0 f'. r1 = PyDict (tab f') \<and> stalled_round f f0 f')"
    using reduce_puzzle_tab by blast
  show ?case
  proof (cases "r1 = PyFalse")
    case True
    with r1 show ?thesis
      by (auto simp: search.simps(1)[of "tab f" l] good_result_def)
  next
    case False
    with r1(3) obtain f0 f' where f': "r1 = PyDict (tab f')" "stalled_round f f0 f'" by blast
    have bel: "below f' f" using f'(2) by (rule stalled_round_below)
    have ok': "cands_ok f'" using bel less.prems by (rule cands_ok_below)
    have ne: "with_len_f f' 0 = []" using f'(2) unfolding stalled_round_def by blast
    show ?thesis
    proof (cases "\<forall>b \<in> set boxes. length (f' b) = 1")
      case True
      with f'(2) have "conflict_free f'" by (rule stalled_all_solved)
      with ok' True have "solved_grid (tab f')" by (intro solved_grid_tab)
      with r1 f' True show ?thesis
        by (auto simp: search.simps(1)[of "tab f" l] tab_not_Nil all_solved_tab good_result_def)
    next
      case ns: False
      then obtain b where b: "b \<in> set boxes" "length (f' b) \<noteq> 1" by blast
      from ne b(1) have "length (f' b) \<noteq> 0"
        by (auto simp: with_len_f_def filter_empty_conv)
      with b(2) have "1 < length (f' b)" by arith
      with b(1) have "(length (f' b), b) \<in> set (branch_pairs f')"
        by (auto simp: branch_pairs_def)
      then have "branch_pairs f' \<noteq> []" by auto
      then obtain n s where m: "py_min (branch_pairs f') = Inr (n, s)"
        using py_min_nonempty by fastforce
      from r1(1) f'(1) have red: "reduce_puzzle (tab f, l) = Inr (PyDict (tab f'), l1)" by simp
      from search_branch[OF red ns m]
      have br: "search (tab f, l) = search_loop (tab f') s (f' s) l1" and s: "s \<in> set boxes"
        by simp_all
      from m have "(n, s) \<in> set (branch_pairs f')" by (rule py_min_member)
      then have len: "1 < length (f' s)" by (auto simp: branch_pairs_def)
      have "\<exists>r l'. search_loop (tab f') s (f' s) l1 = Inr (r, l') \<and> prefix l1 l' \<and> good_result r"
      proof (rule search_loop_tab[OF _ s])
        fix c l2 assume c: "c \<in> set (f' s)"
        let ?g = "f'(s := [c])"
        have bg: "below ?g f'"
          using c by (auto simp: below_def subseq_singleton_left)
        then have "shrinks (tab f') (tab ?g)" by (simp add: shrinks_tab)
        moreover have "tab ?g \<noteq> tab f'"
        proof
          assume "tab ?g = tab f'"
          then have "\<forall>b \<in> set boxes. ?g b = f' b" by (simp only: tab_eq_iff)
          with s have "?g s = f' s" by blast
          then have "f' s = [c]" by simp
          with len show False by simp
        qed
        ultimately have "total (tab ?g) < total (tab f')" by (rule shrinks_total_less)
        moreover have "total (tab f') \<le> total (tab f)"
          using bel by (intro shrinks_total_le) (simp add: shrinks_tab)
        ultimately have lt: "total (tab ?g) < total (tab f)" by simp
        have "cands_ok ?g" using bg ok' by (rule cands_ok_below)
        from less.hyps[OF lt this]
        show "\<exists>r l'. search (tab ?g, l2) = Inr (r, l') \<and> prefix l2 l' \<and> good_result r" .
      qed
      then obtain r l' where "search_loop (tab f') s (f' s) l1 = Inr (r, l')" "prefix l1 l'"
        "good_result r" by blast
      with br r1(2) show ?thesis by (auto intro: prefix_order.trans)
    qed
  qed
qed

section \<open>What \<open>solve\<close> returns (claim C1)\<close>

lemma grid_values_tab:
  assumes "grid_values grid = Inr v"
  shows "\<exists>f. v = tab f \<and> cands_ok f"
proof -
  let ?xs = "map char_value (filter valid_char grid)"
  from assms have len: "length ?xs = 81" and v: "v = zip boxes ?xs"
    by (auto simp: grid_values_eq split: if_splits)
  have wf: "wf_grid v" using assms by (rule grid_values_wf)
  have "set (cell v b) \<subseteq> set cols" for b
  proof (cases "map_of v b")
    case None
    then show ?thesis by (simp add: cell_def)
  next
    case (Some x)
    then have "(b, x) \<in> set (zip boxes ?xs)" unfolding v by (rule map_of_SomeD)
    then have "x \<in> set ?xs" by (rule set_zip_rightD)
    then have "set x \<subseteq> set cols"
      by (auto simp: char_value_def valid_char_def split: if_splits)
    with Some show ?thesis by (simp add: cell_def)
  qed
  then have "cands_ok (cell v)" by (simp add: cands_ok_def)
  with tab_cell[OF wf] show ?thesis by metis
qed

lemma solve_total:
  assumes "grid_values grid = Inr v"
  shows "\<exists>r e. solve grid l = Inr (r, l @ e) \<and> good_result r"
proof -
  from grid_values_tab[OF assms] obtain f where f: "v = tab f" "cands_ok f" by blast
  from search_tab[OF f(2), of l] obtain r l' where
    "search (tab f, l) = Inr (r, l')" "prefix l l'" "good_result r" by blast
  with assms f(1) show ?thesis
    by (auto simp: solve_def prefix_def)
qed

text \<open>
  Claim C1: for every input that \<^verbatim>\<open>grid_values\<close> accepts, \<^verbatim>\<open>solve\<close> returns, and what it returns
  is \<^verbatim>\<open>False\<close> or \<^verbatim>\<open>None\<close> (the two values that report that no solution was found) or a
  dictionary that is a fully solved grid: all 81 boxes hold one digit and each of the 29 units
  holds each digit exactly once. (An input that \<^verbatim>\<open>grid_values\<close> rejects raises before the search,
  see C2.)
\<close>

theorem C1_solve_solved_or_unsat:
  assumes "grid_values grid = Inr v"
  shows "\<exists>r l'. solve grid l = Inr (r, l') \<and>
           (r = PyFalse \<or> r = PyNone \<or> (\<exists>g. r = PyDict g \<and> solved_grid g))"
  using solve_total[OF assms, of l] unfolding good_result_def by blast

theorem C1_solve_solved_or_unsat_witness:
  "grid_values ''2.............62....1....7...6..8...3...9...7...6..4...4....8....52.............3''
     = Inr (zip boxes (map char_value
         ''2.............62....1....7...6..8...3...9...7...6..4...4....8....52.............3'')) \<and>
   (\<exists>r l'. solve ''2.............62....1....7...6..8...3...9...7...6..4...4....8....52.............3'' []
        = Inr (r, l') \<and>
      (r = PyFalse \<or> r = PyNone \<or> (\<exists>g. r = PyDict g \<and> solved_grid g)))"
proof -
  have h: "grid_values ''2.............62....1....7...6..8...3...9...7...6..4...4....8....52.............3''
     = Inr (zip boxes (map char_value
         ''2.............62....1....7...6..8...3...9...7...6..4...4....8....52.............3''))"
    by (simp add: grid_values_eq valid_char_def cols_eval)
  from h C1_solve_solved_or_unsat[OF h, of "[]"] show ?thesis by blast
qed

section \<open>The log of assignments is never cleared (claim C10)\<close>

subsection \<open>The events of a run do not depend on the log it starts with\<close>

text \<open>\<open>shift l r\<close> puts the log \<open>l\<close> in front of the events of the result \<open>r\<close>.\<close>

definition shift :: "grid list \<Rightarrow> error + 'a \<times> grid list \<Rightarrow> error + 'a \<times> grid list" where
  "shift l r = (case r of Inl e \<Rightarrow> Inl e | Inr (x, e) \<Rightarrow> Inr (x, l @ e))"

definition log_free :: "(state \<Rightarrow> error + 'a \<times> grid list) \<Rightarrow> bool" where
  "log_free f = (\<forall>v l. f (v, l) = shift l (f (v, [])))"

lemma shift_Inl [simp]: "shift l (Inl e) = Inl e"
  by (simp add: shift_def)

lemma shift_Inr [simp]: "shift l (Inr (x, e)) = Inr (x, l @ e)"
  by (simp add: shift_def)

lemma shift_shift: "shift l (shift e r) = shift (l @ e) r"
  by (cases r) (auto simp: shift_def)

lemma log_freeI: "(\<And>v l. f (v, l) = shift l (f (v, []))) \<Longrightarrow> log_free f"
  unfolding log_free_def by blast

lemma log_freeD: "log_free f \<Longrightarrow> f (v, l) = shift l (f (v, []))"
  unfolding log_free_def by blast

lemma bind_log_free:
  assumes f: "log_free f" and g: "log_free g"
  shows "log_free (\<lambda>s. case f s of Inl e \<Rightarrow> Inl e | Inr s1 \<Rightarrow> g s1)"
proof (rule log_freeI)
  fix v l
  have fl: "f (v, l) = shift l (f (v, []))" using f by (rule log_freeD)
  show "(case f (v, l) of Inl e \<Rightarrow> Inl e | Inr s1 \<Rightarrow> g s1) =
        shift l (case f (v, []) of Inl e \<Rightarrow> Inl e | Inr s1 \<Rightarrow> g s1)"
  proof (cases "f (v, [])")
    case (Inl e)
    with fl show ?thesis by simp
  next
    case (Inr s1)
    obtain v1 e1 where s1: "s1 = (v1, e1)" by (cases s1)
    have "g (v1, l @ e1) = shift (l @ e1) (g (v1, []))" using g by (rule log_freeD)
    moreover have "g (v1, e1) = shift e1 (g (v1, []))" using g by (rule log_freeD)
    ultimately have "g (v1, l @ e1) = shift l (g (v1, e1))" by (simp add: shift_shift)
    with fl Inr s1 show ?thesis by simp
  qed
qed

lemma for_each_log_free:
  assumes "\<And>x. x \<in> set xs \<Longrightarrow> log_free (body x)"
  shows "log_free (for_each xs body)"
  using assms
proof (induction xs)
  case Nil
  show ?case by (rule log_freeI) simp
next
  case (Cons x xs)
  have 1: "log_free (body x)" by (rule Cons.prems) simp
  have 2: "log_free (for_each xs body)" by (rule Cons.IH) (rule Cons.prems, simp)
  have "for_each (x # xs) body = (\<lambda>s. case body x s of Inl e \<Rightarrow> Inl e | Inr s1 \<Rightarrow> for_each xs body s1)"
    by (rule ext) simp
  with bind_log_free[OF 1 2] show ?case by simp
qed

lemma assign_value_log:
  "assign_value v b x l = (setitem v b x, l @ (if length x = 1 then [setitem v b x] else []))"
  by (simp add: assign_value_def Let_def)

lemma eliminate_peer_log_free: "log_free (eliminate_peer digit peer)"
  by (rule log_freeI) (simp add: eliminate_peer_def assign_value_log split: sum.splits)

lemma eliminate_box_log_free: "log_free (eliminate_box box)"
proof (rule log_freeI)
  fix v l
  have "for_each ps (eliminate_peer digit) (v, l) = shift l (for_each ps (eliminate_peer digit) (v, []))"
    for ps digit
    by (rule log_freeD) (rule for_each_log_free, rule eliminate_peer_log_free)
  then show "eliminate_box box (v, l) = shift l (eliminate_box box (v, []))"
    by (simp add: eliminate_box_def split: sum.splits)
qed

lemma eliminate_in_log_free: "log_free (eliminate_in order)"
  unfolding eliminate_in_def by (rule for_each_log_free) (rule eliminate_box_log_free)

lemma eliminate_log_free: "log_free eliminate"
  by (rule log_freeI) (simp add: eliminate_def log_freeD[OF eliminate_in_log_free, symmetric])

lemma naked_twins_box_log_free: "log_free (naked_twins_box numbers number box)"
  by (rule log_freeI) (simp add: naked_twins_box_def assign_value_log split: sum.splits)

lemma naked_twins_unit_log_free: "log_free (naked_twins_unit unit)"
proof (rule log_freeI)
  fix v l
  have "log_free (for_each tw
          (\<lambda>numbers. for_each numbers (\<lambda>number. for_each unit (naked_twins_box numbers number))))"
    for tw
    by (intro for_each_log_free naked_twins_box_log_free)
  from log_freeD[OF this, of _ v l]
  show "naked_twins_unit unit (v, l) = shift l (naked_twins_unit unit (v, []))"
    by (simp add: naked_twins_unit_def Let_def split: sum.splits)
qed

lemma naked_twins_log_free: "log_free naked_twins"
  unfolding naked_twins_def by (rule for_each_log_free) (rule naked_twins_unit_log_free)

lemma only_choice_digit_log_free: "log_free (only_choice_digit unit digit)"
  by (rule log_freeI) (simp add: only_choice_digit_def assign_value_log Let_def split: sum.splits)

lemma only_choice_log_free: "log_free only_choice"
  unfolding only_choice_def by (intro for_each_log_free only_choice_digit_log_free)

text \<open>One round of the loop of \<^verbatim>\<open>reduce_puzzle\<close>.\<close>

definition round_m :: "state \<Rightarrow> error + state" where
  "round_m s = (case eliminate s of Inl e \<Rightarrow> Inl e
                | Inr s1 \<Rightarrow> (case naked_twins s1 of Inl e \<Rightarrow> Inl e | Inr s2 \<Rightarrow> only_choice s2))"

lemma round_m_log_free: "log_free round_m"
proof -
  have "log_free (\<lambda>s1. case naked_twins s1 of Inl e \<Rightarrow> Inl e | Inr s2 \<Rightarrow> only_choice s2)"
    by (rule bind_log_free) (rule naked_twins_log_free, rule only_choice_log_free)
  with eliminate_log_free
  have "log_free (\<lambda>s. case eliminate s of Inl e \<Rightarrow> Inl e
          | Inr s1 \<Rightarrow> (case naked_twins s1 of Inl e \<Rightarrow> Inl e | Inr s2 \<Rightarrow> only_choice s2))"
    by (rule bind_log_free)
  moreover have "round_m = (\<lambda>s. case eliminate s of Inl e \<Rightarrow> Inl e
          | Inr s1 \<Rightarrow> (case naked_twins s1 of Inl e \<Rightarrow> Inl e | Inr s2 \<Rightarrow> only_choice s2))"
    by (rule ext) (simp add: round_m_def)
  ultimately show ?thesis by simp
qed

lemma round_m_step_ok: "round_m s = Inr s' \<Longrightarrow> step_ok s s'"
  unfolding round_m_def by (auto split: sum.splits intro: round_step_ok)

lemma reduce_puzzle_round:
  "reduce_puzzle (v, l) =
     (case round_m (v, l) of Inl e \<Rightarrow> Inl e
      | Inr (v', l') \<Rightarrow>
          if length (boxes_with_len v' 0) \<noteq> 0 then Inr (PyFalse, l')
          else if length (boxes_with_len v 1) = length (boxes_with_len v' 1) then Inr (PyDict v', l')
          else reduce_puzzle (v', l'))"
  by (simp add: reduce_puzzle.simps[of v l] round_m_def Let_def split: sum.splits prod.splits)

lemma reduce_puzzle_log: "reduce_puzzle (v, l) = shift l (reduce_puzzle (v, []))"
proof (induction "total v" arbitrary: v l rule: less_induct)
  case less
  have rl: "round_m (v, l) = shift l (round_m (v, []))"
    using round_m_log_free by (rule log_freeD)
  show ?case
  proof (cases "round_m (v, [])")
    case (Inl e)
    with rl show ?thesis
      by (simp add: reduce_puzzle_round[of v l] reduce_puzzle_round[of v "[]"])
  next
    case (Inr s1)
    obtain v1 e1 where s1: "s1 = (v1, e1)" by (cases s1)
    from Inr s1 rl have r0: "round_m (v, []) = Inr (v1, e1)" and r1: "round_m (v, l) = Inr (v1, l @ e1)"
      by simp_all
    show ?thesis
    proof (cases "length (boxes_with_len v1 0) = 0 \<and>
                  length (boxes_with_len v 1) \<noteq> length (boxes_with_len v1 1)")
      case False
      with r0 r1 show ?thesis
        by (auto simp: reduce_puzzle_round[of v l] reduce_puzzle_round[of v "[]"])
    next
      case True
      from r0 have "step_ok (v, []) (v1, e1)" by (rule round_m_step_ok)
      then have sh: "shrinks v v1" by (simp add: step_ok_def)
      from True have "v1 \<noteq> v" by auto
      with sh have lt: "total v1 < total v" by (rule shrinks_total_less)
      have "reduce_puzzle (v1, l @ e1) = shift (l @ e1) (reduce_puzzle (v1, []))"
        by (rule less.hyps[OF lt])
      moreover have "reduce_puzzle (v1, e1) = shift e1 (reduce_puzzle (v1, []))"
        by (rule less.hyps[OF lt])
      ultimately have "reduce_puzzle (v1, l @ e1) = shift l (reduce_puzzle (v1, e1))"
        by (simp add: shift_shift)
      with True r0 r1 show ?thesis
        by (simp add: reduce_puzzle_round[of v l] reduce_puzzle_round[of v "[]"])
    qed
  qed
qed

lemma search_log_aux:
  fixes l l0 :: "grid list"
  shows "\<forall>l'. search (v, l') = shift l' (search (v, []))"
    and "\<forall>l'. search_loop w s cs l' = shift l' (search_loop w s cs [])"
proof (induction "(v, l)" and w s cs l0 arbitrary: v l rule: search_search_loop.induct)
  case (1 v l)
  show ?case
  proof
    fix l'
    have rl: "reduce_puzzle (v, l') = shift l' (reduce_puzzle (v, []))"
      and r0: "reduce_puzzle (v, l) = shift l (reduce_puzzle (v, []))"
      by (rule reduce_puzzle_log)+
    show "search (v, l') = shift l' (search (v, []))"
    proof (cases "reduce_puzzle (v, [])")
      case (Inl e)
      with rl show ?thesis
        by (simp add: search.simps[of v l'] search.simps[of v "[]"])
    next
      case (Inr p)
      obtain r e1 where p: "p = (r, e1)" by (cases p)
      note red = Inr[unfolded p]
      show ?thesis
      proof (cases "\<exists>v1 pairs n s cands. r = PyDict v1 \<and> truthy r \<and> all_solved v1 boxes = Inr False \<and>
            unsolved v1 boxes = Inr pairs \<and> py_min pairs = Inr (n, s) \<and> getitem v1 s = Inr cands")
        case False
        with rl red show ?thesis
          by (auto simp: search.simps[of v l'] search.simps[of v "[]"]
              split: pyval.splits sum.splits bool.splits prod.splits)
      next
        case True
        then obtain v1 pairs n s cands where c: "r = PyDict v1" "truthy r"
          "all_solved v1 boxes = Inr False" "unsolved v1 boxes = Inr pairs"
          "py_min pairs = Inr (n, s)" "getitem v1 s = Inr cands" by blast
        from r0 red have r0': "reduce_puzzle (v, l) = Inr (r, l @ e1)" by simp
        have Q: "\<forall>l'. search_loop v1 s cands l' = shift l' (search_loop v1 s cands [])"
          by (rule "1.hyps"[OF r0' refl c(1) _ c(3) refl c(4) c(5) refl c(6)]) (use c(2) in simp)
        have "search_loop v1 s cands (l' @ e1) = shift (l' @ e1) (search_loop v1 s cands [])"
          using Q by blast
        moreover have "search_loop v1 s cands e1 = shift e1 (search_loop v1 s cands [])"
          using Q by blast
        ultimately have "search_loop v1 s cands (l' @ e1) = shift l' (search_loop v1 s cands e1)"
          by (simp add: shift_shift)
        with rl red c show ?thesis
          by (simp add: search.simps[of v l'] search.simps[of v "[]"])
      qed
    qed
  qed
next
  case (2 w s l0)
  show ?case by simp
next
  case (3 w s c rest l0)
  let ?w = "setitem w s [c]"
  have av: "assign_value w s [c] a = (?w, a @ [?w])" for a
    by (simp add: assign_value_log)
  have P: "search (?w, a) = shift a (search (?w, []))" for a
    using "3.hyps"(1)[OF refl av[of l0]] by blast
  show ?case
  proof
    fix l'
    show "search_loop w s (c # rest) l' = shift l' (search_loop w s (c # rest) [])"
    proof (cases "search (?w, [])")
      case (Inl e)
      have "search (?w, l' @ [?w]) = Inl e" "search (?w, [?w]) = Inl e"
        using P[of "l' @ [?w]"] P[of "[?w]"] Inl by simp_all
      then show ?thesis by (simp add: av)
    next
      case (Inr p)
      obtain att e1 where p: "p = (att, e1)" by (cases p)
      have s1: "search (?w, l' @ [?w]) = Inr (att, l' @ [?w] @ e1)"
        using P[of "l' @ [?w]"] Inr p by simp
      have s2: "search (?w, [?w]) = Inr (att, [?w] @ e1)"
        using P[of "[?w]"] Inr p by simp
      have s3: "search (?w, l0 @ [?w]) = Inr (att, l0 @ [?w] @ e1)"
        using P[of "l0 @ [?w]"] Inr p by simp
      show ?thesis
      proof (cases "truthy att")
        case True
        with s1 s2 show ?thesis by (simp add: av)
      next
        case False
        have s3': "search (assign_value w s [c] l0) = Inr (att, l0 @ [?w] @ e1)"
          by (simp only: av s3)
        have Q: "\<forall>l'. search_loop w s rest l' = shift l' (search_loop w s rest [])"
          by (rule "3.hyps"(2)[OF refl s3' refl False])
        have "search_loop w s rest (l' @ [?w] @ e1) = shift (l' @ [?w] @ e1) (search_loop w s rest [])"
          using Q by blast
        moreover have "search_loop w s rest ([?w] @ e1) = shift ([?w] @ e1) (search_loop w s rest [])"
          using Q by blast
        ultimately have "search_loop w s rest (l' @ [?w] @ e1) = shift l' (search_loop w s rest ([?w] @ e1))"
          by (simp add: shift_shift)
        with False s1 s2 show ?thesis by (simp add: av)
      qed
    qed
  qed
qed

lemma search_log: "search (v, l) = shift l (search (v, []))"
  using search_log_aux(1) by blast

lemma solve_log: "solve grid l = shift l (solve grid [])"
  by (simp add: solve_def search_log[of _ l] split: sum.splits)


subsection \<open>The last event\<close>

text \<open>What every call of \<^verbatim>\<open>assign_value\<close> leaves behind, and so every run of statements that
  calls it at least once: a dictionary some string of which does not have length one, or a log
  that has grown and ends with a copy of the dictionary.\<close>

definition logged :: "state \<Rightarrow> state \<Rightarrow> bool" where
  "logged s s' =
     (s' = s \<or>
      (prefix (snd s) (snd s') \<and>
       ((snd s' \<noteq> snd s \<and> last (snd s') = fst s') \<or>
        (\<exists>p \<in> set (fst s'). length (snd p) \<noteq> 1))))"

lemma logged_refl: "logged s s"
  by (simp add: logged_def)

lemma logged_prefix: "logged s s' \<Longrightarrow> prefix (snd s) (snd s')"
  unfolding logged_def by auto

lemma logged_trans:
  assumes ab: "logged a b" and bc: "logged b c"
  shows "logged a c"
proof (cases "b = a \<or> c = b")
  case True
  with ab bc show ?thesis by auto
next
  case False
  from ab bc have pre: "prefix (snd a) (snd b)" "prefix (snd b) (snd c)"
    by (simp_all add: logged_prefix)
  then have pac: "prefix (snd a) (snd c)" by (rule prefix_order.trans)
  have "snd c \<noteq> snd a" if "snd c \<noteq> snd b"
  proof
    assume "snd c = snd a"
    with pre have "prefix (snd b) (snd a)" by simp
    with pre(1) have "snd b = snd a" by (rule prefix_order.antisym[rotated])
    with \<open>snd c = snd a\<close> that show False by simp
  qed
  with bc False pac show ?thesis unfolding logged_def by blast
qed

lemma for_each_logged:
  assumes "\<And>x s s'. x \<in> set xs \<Longrightarrow> body x s = Inr s' \<Longrightarrow> logged s s'"
  shows "for_each xs body s = Inr s' \<Longrightarrow> logged s s'"
  using assms
proof (induction xs arbitrary: s)
  case Nil
  then show ?case by (simp add: logged_refl)
next
  case (Cons x xs)
  from Cons.prems(1) obtain s1 where s1: "body x s = Inr s1" "for_each xs body s1 = Inr s'"
    by (auto split: sum.splits)
  have "logged s s1" by (rule Cons.prems(2)[OF _ s1(1)]) simp
  moreover have "logged s1 s'"
    by (rule Cons.IH[OF s1(2)]) (rule Cons.prems(2), simp_all)
  ultimately show ?case by (rule logged_trans)
qed

lemma assign_value_logged: "logged (v, l) (assign_value v b x l)"
proof (cases "length x = 1")
  case True
  then show ?thesis by (simp add: logged_def assign_value_log)
next
  case False
  have "(b, x) \<in> set (setitem v b x)" unfolding setitem_def by (rule update_member)
  with False have "\<exists>p \<in> set (setitem v b x). length (snd p) \<noteq> 1" by force
  with False show ?thesis by (simp add: logged_def assign_value_log)
qed

lemma eliminate_peer_logged: "eliminate_peer digit peer s = Inr s' \<Longrightarrow> logged s s'"
  unfolding eliminate_peer_def
  by (auto split: prod.splits sum.splits intro!: assign_value_logged)

lemma eliminate_box_logged: "eliminate_box box s = Inr s' \<Longrightarrow> logged s s'"
  unfolding eliminate_box_def
  by (auto split: prod.splits sum.splits elim!: for_each_logged[rotated] intro: eliminate_peer_logged)

lemma eliminate_logged: "eliminate s = Inr s' \<Longrightarrow> logged s s'"
  unfolding eliminate_def eliminate_in_def
  by (auto split: prod.splits elim!: for_each_logged[rotated] intro: eliminate_box_logged)

lemma naked_twins_box_logged: "naked_twins_box numbers number box s = Inr s' \<Longrightarrow> logged s s'"
  unfolding naked_twins_box_def
  by (auto split: prod.splits sum.splits if_splits intro!: assign_value_logged logged_refl)

lemma naked_twins_unit_logged: "naked_twins_unit unit s = Inr s' \<Longrightarrow> logged s s'"
  unfolding naked_twins_unit_def Let_def
  apply (clarsimp split: prod.splits sum.splits)
  apply (erule for_each_logged[rotated])
  apply (erule for_each_logged[rotated])
  apply (erule for_each_logged[rotated])
  apply (erule naked_twins_box_logged)
  done

lemma naked_twins_logged: "naked_twins s = Inr s' \<Longrightarrow> logged s s'"
  unfolding naked_twins_def
  by (erule for_each_logged[rotated]) (rule naked_twins_unit_logged)

lemma only_choice_digit_logged: "only_choice_digit unit digit s = Inr s' \<Longrightarrow> logged s s'"
  unfolding only_choice_digit_def Let_def
  by (auto split: prod.splits sum.splits if_splits intro!: assign_value_logged logged_refl)

lemma only_choice_logged: "only_choice s = Inr s' \<Longrightarrow> logged s s'"
  unfolding only_choice_def
  apply (erule for_each_logged[rotated])
  apply (erule for_each_logged[rotated])
  apply (erule only_choice_digit_logged)
  done

lemma round_m_logged:
  assumes "round_m s = Inr s'"
  shows "logged s s'"
proof -
  from assms obtain s1 s2 where
    st: "eliminate s = Inr s1" "naked_twins s1 = Inr s2" "only_choice s2 = Inr s'"
    by (auto simp: round_m_def split: sum.splits)
  have "logged s s1" using st(1) by (rule eliminate_logged)
  moreover have "logged s1 s2" using st(2) by (rule naked_twins_logged)
  ultimately have "logged s s2" by (rule logged_trans)
  moreover have "logged s2 s'" using st(3) by (rule only_choice_logged)
  ultimately show ?thesis by (rule logged_trans)
qed

lemma reduce_puzzle_logged:
  "reduce_puzzle (v, l) = Inr (PyDict v', l') \<Longrightarrow> logged (v, l) (v', l')"
proof (induction "total v" arbitrary: v l rule: less_induct)
  case less
  from less.prems obtain v1 l1 where r: "round_m (v, l) = Inr (v1, l1)"
    by (auto simp: reduce_puzzle_round[of v l] split: sum.splits)
  then have lg: "logged (v, l) (v1, l1)" by (rule round_m_logged)
  show ?case
  proof (cases "length (boxes_with_len v1 0) = 0 \<and>
                length (boxes_with_len v 1) \<noteq> length (boxes_with_len v1 1)")
    case False
    with less.prems r have "v' = v1" "l' = l1"
      by (auto simp: reduce_puzzle_round[of v l] split: if_splits)
    with lg show ?thesis by simp
  next
    case True
    from r have "step_ok (v, l) (v1, l1)" by (rule round_m_step_ok)
    then have sh: "shrinks v v1" by (simp add: step_ok_def)
    from True have "v1 \<noteq> v" by auto
    with sh have lt: "total v1 < total v" by (rule shrinks_total_less)
    from less.prems r True have "reduce_puzzle (v1, l1) = Inr (PyDict v', l')"
      by (simp add: reduce_puzzle_round[of v l])
    with lt have "logged (v1, l1) (v', l')" by (rule less.hyps)
    with lg show ?thesis by (rule logged_trans)
  qed
qed

lemma search_prefix: "search (v, l) = Inr (r, l') \<Longrightarrow> prefix l l'"
  using search_log[of v l] by (cases "search (v, [])") (auto simp: shift_def)

lemma search_logged_aux:
  fixes l l0 :: "grid list"
  shows "\<forall>g l'. search (v, l) = Inr (PyDict g, l') \<longrightarrow> logged (v, l) (g, l')"
    and "\<forall>g l'. search_loop w s cs l0 = Inr (PyDict g, l') \<longrightarrow>
           prefix l0 l' \<and> l' \<noteq> l0 \<and> (last l' = g \<or> (\<exists>p \<in> set g. length (snd p) \<noteq> 1))"
proof (induction "(v, l)" and w s cs l0 arbitrary: v l rule: search_search_loop.induct)
  case (1 v l)
  show ?case
  proof (intro allI impI)
    fix g l'
    assume a: "search (v, l) = Inr (PyDict g, l')"
    then obtain r l1 where red: "reduce_puzzle (v, l) = Inr (r, l1)"
      by (auto simp: search.simps[of v l] split: sum.splits)
    show "logged (v, l) (g, l')"
    proof (cases "\<exists>v1 pairs n s cands. r = PyDict v1 \<and> truthy r \<and> all_solved v1 boxes = Inr False \<and>
            unsolved v1 boxes = Inr pairs \<and> py_min pairs = Inr (n, s) \<and> getitem v1 s = Inr cands")
      case False
      with a red have "r = PyDict g" "l' = l1"
        by (auto simp: search.simps[of v l] split: pyval.splits sum.splits bool.splits prod.splits if_splits)
      with red show ?thesis by (simp add: reduce_puzzle_logged)
    next
      case True
      then obtain v1 pairs n s cands where c: "r = PyDict v1" "truthy r"
        "all_solved v1 boxes = Inr False" "unsolved v1 boxes = Inr pairs"
        "py_min pairs = Inr (n, s)" "getitem v1 s = Inr cands" by blast
      from red c(1) have lg: "logged (v, l) (v1, l1)" by (simp add: reduce_puzzle_logged)
      have Q: "\<forall>g l'. search_loop v1 s cands l1 = Inr (PyDict g, l') \<longrightarrow>
           prefix l1 l' \<and> l' \<noteq> l1 \<and> (last l' = g \<or> (\<exists>p \<in> set g. length (snd p) \<noteq> 1))"
        by (rule "1.hyps"[OF red refl c(1) _ c(3) refl c(4) c(5) refl c(6)]) (use c(2) in simp)
      from a red c have "search_loop v1 s cands l1 = Inr (PyDict g, l')"
        by (simp add: search.simps[of v l])
      with Q have "prefix l1 l' \<and> l' \<noteq> l1 \<and> (last l' = g \<or> (\<exists>p \<in> set g. length (snd p) \<noteq> 1))"
        by blast
      then have "logged (v1, l1) (g, l')" by (auto simp: logged_def)
      with lg show ?thesis by (rule logged_trans)
    qed
  qed
next
  case (2 w s l0)
  show ?case by simp
next
  case (3 w s c rest l0)
  let ?w = "setitem w s [c]"
  have av: "assign_value w s [c] l0 = (?w, l0 @ [?w])"
    by (simp add: assign_value_log)
  have P: "\<forall>g l'. search (?w, l0 @ [?w]) = Inr (PyDict g, l') \<longrightarrow> logged (?w, l0 @ [?w]) (g, l')"
    by (rule "3.hyps"(1)[OF refl av])
  show ?case
  proof (intro allI impI)
    fix g l'
    assume a: "search_loop w s (c # rest) l0 = Inr (PyDict g, l')"
    then obtain att l2 where s: "search (?w, l0 @ [?w]) = Inr (att, l2)"
      by (auto simp: av split: sum.splits)
    from s have pre: "prefix (l0 @ [?w]) l2" by (rule search_prefix)
    then have p0: "prefix l0 l2" and ne0: "l2 \<noteq> l0"
      by (auto simp: prefix_def)
    show "prefix l0 l' \<and> l' \<noteq> l0 \<and> (last l' = g \<or> (\<exists>p \<in> set g. length (snd p) \<noteq> 1))"
    proof (cases "truthy att")
      case True
      with a s have eq: "att = PyDict g" "l' = l2" by (simp_all add: av)
      with s P have "logged (?w, l0 @ [?w]) (g, l2)" by blast
      then have "last l2 = g \<or> (\<exists>p \<in> set g. length (snd p) \<noteq> 1)"
        by (auto simp: logged_def)
      with p0 ne0 eq show ?thesis by simp
    next
      case False
      have s': "search (assign_value w s [c] l0) = Inr (att, l2)" by (simp only: av s)
      have Q: "\<forall>g l'. search_loop w s rest l2 = Inr (PyDict g, l') \<longrightarrow>
           prefix l2 l' \<and> l' \<noteq> l2 \<and> (last l' = g \<or> (\<exists>p \<in> set g. length (snd p) \<noteq> 1))"
        by (rule "3.hyps"(2)[OF refl s' refl False])
      from a s False have "search_loop w s rest l2 = Inr (PyDict g, l')" by (simp add: av)
      with Q have q: "prefix l2 l'" "last l' = g \<or> (\<exists>p \<in> set g. length (snd p) \<noteq> 1)"
        by blast+
      from pre q(1) have "prefix (l0 @ [?w]) l'" by (rule prefix_order.trans)
      then have "prefix l0 l'" "l' \<noteq> l0" by (auto simp: prefix_def)
      with q(2) show ?thesis by simp
    qed
  qed
qed

lemma search_logged: "search (v, l) = Inr (PyDict g, l') \<Longrightarrow> logged (v, l) (g, l')"
  using search_logged_aux(1) by blast

lemma solved_grid_lengths:
  assumes "solved_grid g" and "p \<in> set g"
  shows "length (snd p) = 1"
proof -
  from assms(1) have k: "keys g = boxes"
    and c: "\<forall>b \<in> set boxes. \<exists>d \<in> set cols. getitem g b = Inr [d]"
    unfolding solved_grid_def by blast+
  from k have d: "distinct (map fst g)" by (simp add: keys_def distinct_boxes)
  from assms(2) have "fst p \<in> set (map fst g)" by simp
  with k have "fst p \<in> set boxes" by (simp add: keys_def)
  with c obtain x where x: "getitem g (fst p) = Inr [x]" by blast
  from d assms(2) have "map_of g (fst p) = Some (snd p)" by (intro map_of_is_SomeI) simp_all
  with x show ?thesis by (simp add: getitem_def)
qed

lemma solve_last_event:
  assumes "grid_values grid = Inr v" and "solve grid [] = Inr (PyDict g, e)"
    and "solved_grid g" and "g \<noteq> v"
  shows "e \<noteq> [] \<and> last e = g"
proof -
  from assms(1,2) have "search (v, []) = Inr (PyDict g, e)" by (simp add: solve_def)
  then have "logged (v, []) (g, e)" by (rule search_logged)
  with assms(3,4) show ?thesis
    by (auto simp: logged_def dest: solved_grid_lengths)
qed

subsection \<open>What the log holds after two calls of \<open>solve\<close>\<close>

text \<open>
  Claim C10, its first half refuted: not every call of \<^verbatim>\<open>assign_value\<close> appends to
  \<^verbatim>\<open>assignments\<close>. The first call that \<^verbatim>\<open>eliminate\<close> makes for a solved \<^verbatim>\<open>A1\<close> holding \<^verbatim>\<open>1\<close>
  on an otherwise empty grid stores the eight remaining candidates in \<^verbatim>\<open>A2\<close>, and leaves the
  log as it was.
\<close>

theorem C10_call_without_event_counterexample:
  "assign_value (tab ((\<lambda>b. ''123456789'')(''A1'' := ''1''))) ''A2'' ''23456789'' [] =
     (tab ((\<lambda>b. ''123456789'')(''A1'' := ''1'', ''A2'' := ''23456789'')), [])"
  by (simp add: assign_value_def Let_def setitem_tab in_boxes)

text \<open>
  Claim C10, amended: \<^verbatim>\<open>assignments\<close> is one list for the whole process and is never cleared.
  A call of \<^verbatim>\<open>assign_value\<close> appends the updated dictionary to it exactly when the stored string
  has length one, and otherwise leaves it as it is. A call of \<^verbatim>\<open>solve\<close> appends to whatever the
  list holds the events that the same call produces from an empty list: after two calls that
  start from the log \<open>l\<close>, the log is \<open>l\<close>, then the events of the first call, then those of
  the second. These events are there: a call that returns a solved grid other than the parsed
  input has appended at least one event, and the last one is the solved grid.
\<close>

theorem C10_log_appended:
  assumes "grid_values grid1 = Inr v1" and "grid_values grid2 = Inr v2"
  shows "snd (assign_value values box x l) =
           (if length x = 1 then l @ [setitem values box x] else l) \<and>
         (\<exists>r1 e1 r2 e2.
            solve grid1 [] = Inr (r1, e1) \<and> solve grid2 [] = Inr (r2, e2) \<and>
            solve grid1 l = Inr (r1, l @ e1) \<and>
            solve grid2 (l @ e1) = Inr (r2, l @ e1 @ e2) \<and>
            (\<forall>g. r1 = PyDict g \<and> g \<noteq> v1 \<longrightarrow> e1 \<noteq> [] \<and> last e1 = g) \<and>
            (\<forall>g. r2 = PyDict g \<and> g \<noteq> v2 \<longrightarrow> e2 \<noteq> [] \<and> last e2 = g))"
proof -
  from solve_total[OF assms(1), of "[]"] obtain r1 e1 where
    1: "solve grid1 [] = Inr (r1, e1)" "good_result r1" by auto
  from solve_total[OF assms(2), of "[]"] obtain r2 e2 where
    2: "solve grid2 [] = Inr (r2, e2)" "good_result r2" by auto
  have 3: "solve grid1 l = Inr (r1, l @ e1)"
    using solve_log[of grid1 l] 1(1) by simp
  have 4: "solve grid2 (l @ e1) = Inr (r2, l @ e1 @ e2)"
    using solve_log[of grid2 "l @ e1"] 2(1) by simp
  have 5: "e1 \<noteq> [] \<and> last e1 = g" if "r1 = PyDict g \<and> g \<noteq> v1" for g
  proof -
    from that 1(2) have "solved_grid g" by (simp add: good_result_def)
    with assms(1) 1(1) that show ?thesis by (intro solve_last_event[of grid1 v1]) simp_all
  qed
  have 6: "e2 \<noteq> [] \<and> last e2 = g" if "r2 = PyDict g \<and> g \<noteq> v2" for g
  proof -
    from that 2(2) have "solved_grid g" by (simp add: good_result_def)
    with assms(2) 2(1) that show ?thesis by (intro solve_last_event[of grid2 v2]) simp_all
  qed
  have 0: "snd (assign_value values box x l) =
           (if length x = 1 then l @ [setitem values box x] else l)"
    by (simp add: assign_value_def Let_def)
  from 0 1(1) 2(1) 3 4 5 6 show ?thesis by blast
qed

theorem C10_log_appended_witness:
  "grid_values (replicate 81 (CHR ''.'')) = Inr (zip boxes (replicate 81 ''123456789'')) \<and>
   snd (assign_value [] ''A1'' ''1'' []) = [] @ [setitem [] ''A1'' ''1''] \<and>
   (\<exists>r1 e1 r2 e2.
      solve (replicate 81 (CHR ''.'')) [] = Inr (r1, e1) \<and>
      solve (replicate 81 (CHR ''.'')) [] = Inr (r2, e2) \<and>
      solve (replicate 81 (CHR ''.'')) [] = Inr (r1, [] @ e1) \<and>
      solve (replicate 81 (CHR ''.'')) ([] @ e1) = Inr (r2, [] @ e1 @ e2) \<and>
      (\<forall>g. r1 = PyDict g \<and> g \<noteq> zip boxes (replicate 81 ''123456789'') \<longrightarrow>
           e1 \<noteq> [] \<and> last e1 = g) \<and>
      (\<forall>g. r2 = PyDict g \<and> g \<noteq> zip boxes (replicate 81 ''123456789'') \<longrightarrow>
           e2 \<noteq> [] \<and> last e2 = g))"
proof -
  have "filter valid_char (replicate 81 (CHR ''.'')) = replicate 81 (CHR ''.'')"
    by (simp add: valid_char_def)
  then have h: "grid_values (replicate 81 (CHR ''.'')) = Inr (zip boxes (replicate 81 ''123456789''))"
    by (simp add: grid_values_eq char_value_def cols_eval)
  from C10_log_appended[OF h h, of "[]" "''A1''" "''1''" "[]"]
  have "snd (assign_value [] ''A1'' ''1'' []) = [] @ [setitem [] ''A1'' ''1''] \<and>
   (\<exists>r1 e1 r2 e2.
      solve (replicate 81 (CHR ''.'')) [] = Inr (r1, e1) \<and>
      solve (replicate 81 (CHR ''.'')) [] = Inr (r2, e2) \<and>
      solve (replicate 81 (CHR ''.'')) [] = Inr (r1, [] @ e1) \<and>
      solve (replicate 81 (CHR ''.'')) ([] @ e1) = Inr (r2, [] @ e1 @ e2) \<and>
      (\<forall>g. r1 = PyDict g \<and> g \<noteq> zip boxes (replicate 81 ''123456789'') \<longrightarrow>
           e1 \<noteq> [] \<and> last e1 = g) \<and>
      (\<forall>g. r2 = PyDict g \<and> g \<noteq> zip boxes (replicate 81 ''123456789'') \<longrightarrow>
           e2 \<noteq> [] \<and> last e2 = g))"
    by simp
  with h show ?thesis by blast
qed

section \<open>The order in which \<open>eliminate\<close> visits the solved boxes (claim C8)\<close>

text \<open>The content of one box in the dictionary a function returned.\<close>

definition result_cell :: "error + state \<Rightarrow> string \<Rightarrow> error + string" where
  "result_cell r b = (case r of Inl e \<Rightarrow> Inl e | Inr (v, l) \<Rightarrow> getitem v b)"

lemma boxes_eval: "boxes =
  [''A1'', ''A2'', ''A3'', ''A4'', ''A5'', ''A6'', ''A7'', ''A8'', ''A9'',
   ''B1'', ''B2'', ''B3'', ''B4'', ''B5'', ''B6'', ''B7'', ''B8'', ''B9'',
   ''C1'', ''C2'', ''C3'', ''C4'', ''C5'', ''C6'', ''C7'', ''C8'', ''C9'',
   ''D1'', ''D2'', ''D3'', ''D4'', ''D5'', ''D6'', ''D7'', ''D8'', ''D9'',
   ''E1'', ''E2'', ''E3'', ''E4'', ''E5'', ''E6'', ''E7'', ''E8'', ''E9'',
   ''F1'', ''F2'', ''F3'', ''F4'', ''F5'', ''F6'', ''F7'', ''F8'', ''F9'',
   ''G1'', ''G2'', ''G3'', ''G4'', ''G5'', ''G6'', ''G7'', ''G8'', ''G9'',
   ''H1'', ''H2'', ''H3'', ''H4'', ''H5'', ''H6'', ''H7'', ''H8'', ''H9'',
   ''I1'', ''I2'', ''I3'', ''I4'', ''I5'', ''I6'', ''I7'', ''I8'', ''I9'']"
  by (simp add: boxes_def cross_def rows_eval cols_eval)

lemma result_cell_eliminate_in_tab:
  assumes "set order \<subseteq> set boxes" "b \<in> set boxes"
  shows "result_cell (eliminate_in order (tab f, l)) b = Inr (eliminate_in_f order f b)"
proof -
  from eliminate_in_tab[OF assms(1), of f l] obtain l' where
    "eliminate_in order (tab f, l) = Inr (tab (eliminate_in_f order f), l')" by blast
  with assms(2) show ?thesis by (simp add: result_cell_def getitem_tab)
qed

lemma A1_A2_peers: "''A2'' \<in> set (peers_of ''A1'')" "''A1'' \<in> set (peers_of ''A2'')"
proof -
  have u: "[''A1'', ''A2'', ''A3'', ''A4'', ''A5'', ''A6'', ''A7'', ''A8'', ''A9''] \<in> set unitlist"
    by (simp add: unitlist_def row_units_eval cross_def)
  show "''A2'' \<in> set (peers_of ''A1'')"
    by (rule unit_peers[OF u]) simp_all
  then show "''A1'' \<in> set (peers_of ''A2'')"
    by (rule peers_of_sym)
qed

text \<open>
  Claim C8 as stated: within one pass of \<^verbatim>\<open>eliminate\<close>, every order of the solved boxes gives
  the same grid. It fails on the grid that holds \<open>5\<close> in both \<open>A1\<close> and \<open>A2\<close> and \<open>123456789\<close>
  elsewhere: the box visited first empties the other one, and the emptied box, visited second,
  removes nothing (\<^verbatim>\<open>digit\<close> is read when the box is visited, and is then the empty string).
  Visiting \<open>A1\<close> first leaves \<open>A2\<close> empty; visiting \<open>A2\<close> first leaves \<open>A2 = 5\<close>.
\<close>

theorem C8_order_matters_counterexample:
  "boxes_with_len (tab ((\<lambda>b. ''123456789'')(''A1'' := ''5'', ''A2'' := ''5''))) 1 = [''A1'', ''A2''] \<and>
   result_cell (eliminate_in [''A1'', ''A2'']
      (tab ((\<lambda>b. ''123456789'')(''A1'' := ''5'', ''A2'' := ''5'')), [])) ''A2'' = Inr [] \<and>
   result_cell (eliminate_in [''A2'', ''A1'']
      (tab ((\<lambda>b. ''123456789'')(''A1'' := ''5'', ''A2'' := ''5'')), [])) ''A2'' = Inr ''5''"
proof -
  have b: "''A1'' \<in> set boxes" "''A2'' \<in> set boxes" by (simp_all add: in_boxes)
  have 1: "boxes_with_len (tab ((\<lambda>b. ''123456789'')(''A1'' := ''5'', ''A2'' := ''5''))) 1
           = [''A1'', ''A2'']"
    by (simp add: boxes_with_len_tab with_len_f_def boxes_eval)
  have 2: "eliminate_in_f [''A1'', ''A2''] ((\<lambda>b. ''123456789'')(''A1'' := ''5'', ''A2'' := ''5'')) ''A2'' = []"
    by (simp add: eliminate_in_f_def elim_box_f_apply A1_A2_peers not_self_peer)
  have 3: "eliminate_in_f [''A2'', ''A1''] ((\<lambda>b. ''123456789'')(''A1'' := ''5'', ''A2'' := ''5'')) ''A2'' = ''5''"
    by (simp add: eliminate_in_f_def elim_box_f_apply A1_A2_peers not_self_peer)
  from 1 2 3 b show ?thesis
    by (simp add: result_cell_eliminate_in_tab)
qed

text \<open>Without two solved peers that hold the same digit, the result of visiting the boxes of
  \<open>order\<close> is a function of the set of boxes visited.\<close>

lemma eliminate_in_f_char:
  assumes "\<forall>a \<in> set order. length (f a) = 1 \<and> (\<forall>b \<in> set order. b \<in> set (peers_of a) \<longrightarrow> f a \<noteq> f b)"
  shows "fold elim_box_f order f y =
           filter (\<lambda>c. \<forall>a \<in> set order. y \<in> set (peers_of a) \<longrightarrow> f a \<noteq> [c]) (f y)"
  using assms
proof (induction order arbitrary: f)
  case Nil
  then show ?case by simp
next
  case (Cons x xs)
  let ?f1 = "elim_box_f x f"
  from Cons.prems obtain d where d: "f x = [d]"
    by (cases "f x") auto
  have keep: "?f1 a = f a" if "a \<in> set (x # xs)" for a
  proof (cases "a \<in> set (peers_of x)")
    case False
    then show ?thesis by (simp add: elim_box_f_apply)
  next
    case True
    from Cons.prems that obtain e where e: "f a = [e]" by (cases "f a") auto
    from Cons.prems that True have "f x \<noteq> f a" by auto
    with d e True show ?thesis by (simp add: elim_box_f_apply str_remove_char)
  qed
  have P1: "\<forall>a \<in> set xs. length (?f1 a) = 1 \<and> (\<forall>b \<in> set xs. b \<in> set (peers_of a) \<longrightarrow> ?f1 a \<noteq> ?f1 b)"
    using Cons.prems keep by auto
  have f1y: "?f1 y = filter (\<lambda>c. y \<in> set (peers_of x) \<longrightarrow> f x \<noteq> [c]) (f y)"
    by (auto simp: elim_box_f_apply d str_remove_char intro: filter_cong)
  have "fold elim_box_f (x # xs) f y = fold elim_box_f xs ?f1 y" by simp
  also have "\<dots> = filter (\<lambda>c. \<forall>a \<in> set xs. y \<in> set (peers_of a) \<longrightarrow> ?f1 a \<noteq> [c]) (?f1 y)"
    by (rule Cons.IH[OF P1])
  also have "\<dots> = filter (\<lambda>c. \<forall>a \<in> set xs. y \<in> set (peers_of a) \<longrightarrow> f a \<noteq> [c]) (?f1 y)"
    by (rule filter_cong) (use keep in auto)
  also have "\<dots> = filter (\<lambda>c. \<forall>a \<in> set (x # xs). y \<in> set (peers_of a) \<longrightarrow> f a \<noteq> [c]) (f y)"
    unfolding f1y by (auto intro: filter_cong)
  finally show ?case .
qed

text \<open>
  Claim C8, amended: on a grid in which no two solved boxes that are peers hold the same digit,
  \<^verbatim>\<open>eliminate\<close> returns the same grid for every permutation of the order in which the solved
  boxes are visited.
\<close>

theorem C8_eliminate_order_independent:
  assumes wf: "wf_grid v"
    and perm: "mset order = mset (boxes_with_len v 1)"
    and nc: "\<forall>a \<in> set (boxes_with_len v 1). \<forall>b \<in> set (boxes_with_len v 1).
               b \<in> set (peers_of a) \<longrightarrow> getitem v a \<noteq> getitem v b"
  shows "\<exists>v' l1 l2. eliminate_in order (v, l) = Inr (v', l1) \<and> eliminate (v, l) = Inr (v', l2)"
proof -
  define f where "f = cell v"
  have v: "v = tab f" unfolding f_def using tab_cell[OF wf] by simp
  let ?S = "with_len_f f 1"
  have S: "boxes_with_len v 1 = ?S" unfolding v by (rule boxes_with_len_tab)
  have sub: "set ?S \<subseteq> set boxes" by (simp add: with_len_f_def)
  from perm have so: "set order = set ?S" unfolding S by (rule mset_eq_setD)
  have P: "\<forall>a \<in> set ?S. length (f a) = 1 \<and> (\<forall>b \<in> set ?S. b \<in> set (peers_of a) \<longrightarrow> f a \<noteq> f b)"
  proof (intro ballI conjI impI)
    fix a assume "a \<in> set ?S"
    then show "length (f a) = 1" by (simp add: with_len_f_def)
  next
    fix a b assume ab: "a \<in> set ?S" "b \<in> set ?S" "b \<in> set (peers_of a)"
    with nc have "getitem v a \<noteq> getitem v b" unfolding S by blast
    moreover from ab sub have "a \<in> set boxes" "b \<in> set boxes" by auto
    ultimately show "f a \<noteq> f b" unfolding v by (simp add: getitem_tab)
  qed
  have "eliminate_in_f order f y = eliminate_in_f ?S f y" for y
    unfolding eliminate_in_f_def
    using eliminate_in_f_char[of order f y] eliminate_in_f_char[of ?S f y] P so by simp
  then have eq: "eliminate_in_f order f = eliminate_f f"
    by (auto simp: eliminate_f_def)
  from sub so have "set order \<subseteq> set boxes" by simp
  from eliminate_in_tab[OF this, of f l] obtain l1 where
    1: "eliminate_in order (tab f, l) = Inr (tab (eliminate_in_f order f), l1)" by blast
  from eliminate_tab[of f l] obtain l2 where
    2: "eliminate (tab f, l) = Inr (tab (eliminate_f f), l2)" by blast
  from 1 2 eq show ?thesis unfolding v by auto
qed

theorem C8_eliminate_order_independent_witness:
  "wf_grid (tab ((\<lambda>b. ''123456789'')(''A1'' := ''1'', ''A2'' := ''2''))) \<and>
   mset [''A2'', ''A1''] = mset (boxes_with_len (tab ((\<lambda>b. ''123456789'')(''A1'' := ''1'', ''A2'' := ''2''))) 1) \<and>
   (\<exists>v' l1 l2.
      eliminate_in [''A2'', ''A1''] (tab ((\<lambda>b. ''123456789'')(''A1'' := ''1'', ''A2'' := ''2'')), []) = Inr (v', l1) \<and>
      eliminate (tab ((\<lambda>b. ''123456789'')(''A1'' := ''1'', ''A2'' := ''2'')), []) = Inr (v', l2))"
proof -
  let ?v = "tab ((\<lambda>b. ''123456789'')(''A1'' := ''1'', ''A2'' := ''2''))"
  have s: "boxes_with_len ?v 1 = [''A1'', ''A2'']"
    by (simp add: boxes_with_len_tab with_len_f_def boxes_eval)
  have wf: "wf_grid ?v" by (rule wf_grid_tab)
  have perm: "mset [''A2'', ''A1''] = mset (boxes_with_len ?v 1)"
    unfolding s by simp
  have nc: "\<forall>a \<in> set (boxes_with_len ?v 1). \<forall>b \<in> set (boxes_with_len ?v 1).
               b \<in> set (peers_of a) \<longrightarrow> getitem ?v a \<noteq> getitem ?v b"
    unfolding s by (simp add: getitem_tab in_boxes not_self_peer)
  from C8_eliminate_order_independent[OF wf perm nc, of "[]"] wf perm show ?thesis by blast
qed

section \<open>Rounds that change little\<close>

text \<open>Facts that settle most of a round on a concrete table without visiting every box:
  \<^verbatim>\<open>eliminate\<close> needs a solved box, \<^verbatim>\<open>naked_twins\<close> needs a unit with a string of length two at
  two boxes, \<^verbatim>\<open>only_choice\<close> needs a unit and a digit with a single place.\<close>

lemma fold_noop: "(\<And>x. x \<in> set xs \<Longrightarrow> g x f = f) \<Longrightarrow> fold g xs f = f"
  by (induction xs) simp_all

lemma eliminate_f_noop: "(\<forall>b \<in> set boxes. length (f b) \<noteq> 1) \<Longrightarrow> eliminate_f f = f"
  by (simp add: eliminate_f_def with_len_f_def eliminate_in_f_def filter_empty_conv[THEN iffD2])

lemma count_list_filter: "P d \<Longrightarrow> count_list (filter P xs) d = count_list xs d"
  by (induction xs) auto

lemma count_list_distinct: "distinct xs \<Longrightarrow> count_list xs d \<le> 1"
  by (induction xs) (auto simp: count_list_0_iff)

lemma twins_num_of_Nil:
  assumes "distinct (filter (\<lambda>d. length d = 2) xs)"
  shows "twins_num_of xs = []"
proof -
  have "count_list xs d \<noteq> 2" if "length d = 2" for d
  proof -
    have "count_list xs d = count_list (filter (\<lambda>d. length d = 2) xs) d"
      using that by (simp add: count_list_filter)
    also have "\<dots> \<le> 1" using assms by (rule count_list_distinct)
    finally show ?thesis by simp
  qed
  then show ?thesis by (auto simp: twins_num_of_def filter_empty_conv)
qed

lemma nt_unit_f_noop:
  "distinct (filter (\<lambda>d. length d = 2) (map f u)) \<Longrightarrow> nt_unit_f u f = f"
  by (simp add: nt_unit_f_def twins_num_of_Nil)

lemma length_le_1_distinct: "length xs \<le> 1 \<Longrightarrow> distinct xs"
  by (cases xs) auto

lemma length_filter_mono:
  "(\<And>x. x \<in> set xs \<Longrightarrow> P x \<Longrightarrow> Q x) \<Longrightarrow> length (filter P xs) \<le> length (filter Q xs)"
proof (induction xs)
  case Nil
  then show ?case by simp
next
  case (Cons x xs)
  have "length (filter P xs) \<le> length (filter Q xs)"
    by (rule Cons.IH) (rule Cons.prems, simp_all)
  moreover have "P x \<Longrightarrow> Q x" by (rule Cons.prems) simp_all
  ultimately show ?case by auto
qed

lemma nt_unit_f_noop_set:
  assumes L: "\<forall>b. length (f b) = 2 \<longrightarrow> b \<in> L" and few: "length (filter (\<lambda>b. b \<in> L) u) \<le> 1"
  shows "nt_unit_f u f = f"
proof (rule nt_unit_f_noop)
  have "length (filter (\<lambda>b. length (f b) = 2) u) \<le> length (filter (\<lambda>b. b \<in> L) u)"
    by (rule length_filter_mono) (use L in blast)
  with few have "length (map f (filter (\<lambda>b. length (f b) = 2) u)) \<le> 1" by simp
  then have "distinct (map f (filter (\<lambda>b. length (f b) = 2) u))" by (rule length_le_1_distinct)
  then show "distinct (filter (\<lambda>d. length d = 2) (map f u))"
    by (simp add: filter_map comp_def)
qed

text \<open>A unit with a single pair of twins: the closed form, and the same as a chain of updates.\<close>

definition strip_twin :: "string list \<Rightarrow> string \<Rightarrow> (string \<Rightarrow> string) \<Rightarrow> string \<Rightarrow> string" where
  "strip_twin u numbers f =
     fold (\<lambda>b g. if f b \<noteq> numbers then g(b := filter (\<lambda>c. c \<notin> set numbers) (f b)) else g) u f"

lemma fold_cond_update:
  "distinct u \<Longrightarrow>
   fold (\<lambda>b g. if P b then g(b := h b) else g) u g y = (if y \<in> set u \<and> P y then h y else g y)"
  by (induction u arbitrary: g) auto

lemma strip_twin_apply:
  "distinct u \<Longrightarrow>
   strip_twin u numbers f y =
     (if y \<in> set u \<and> f y \<noteq> numbers then filter (\<lambda>c. c \<notin> set numbers) (f y) else f y)"
  unfolding strip_twin_def by (rule fold_cond_update)

lemma fold_nt_box_f_gen:
  "distinct u \<Longrightarrow> (\<forall>z \<in> set u. g z = f z) \<Longrightarrow>
   fold (nt_box_f numbers number) u g y =
     (if y \<in> set u \<and> f y \<noteq> numbers then filter (\<lambda>c. c \<noteq> number) (f y) else g y)"
proof (induction u arbitrary: g)
  case Nil
  then show ?case by simp
next
  case (Cons b u)
  let ?g1 = "nt_box_f numbers number b g"
  from Cons.prems have gb: "g b = f b" and nb: "b \<notin> set u" and du: "distinct u" by simp_all
  have g1: "?g1 z = (if z = b \<and> f b \<noteq> numbers then filter (\<lambda>c. c \<noteq> number) (f b) else g z)" for z
    by (simp add: nt_box_f_def str_remove_char gb)
  have inv: "\<forall>z \<in> set u. ?g1 z = f z"
    using Cons.prems(2) nb by (auto simp: g1)
  have "fold (nt_box_f numbers number) (b # u) g y = fold (nt_box_f numbers number) u ?g1 y"
    by simp
  also have "\<dots> = (if y \<in> set u \<and> f y \<noteq> numbers then filter (\<lambda>c. c \<noteq> number) (f y) else ?g1 y)"
    by (rule Cons.IH[OF du inv])
  also have "\<dots> = (if y \<in> set (b # u) \<and> f y \<noteq> numbers then filter (\<lambda>c. c \<noteq> number) (f y) else g y)"
    using nb by (auto simp: g1)
  finally show ?case .
qed

lemma fold_nt_box_f:
  "distinct u \<Longrightarrow>
   fold (nt_box_f numbers number) u f y =
     (if y \<in> set u \<and> f y \<noteq> numbers then filter (\<lambda>c. c \<noteq> number) (f y) else f y)"
  by (rule fold_nt_box_f_gen) simp_all

lemma nt_pair_f_apply:
  assumes d: "distinct u"
  shows "nt_pair_f u [n1, n2] f y =
     (if y \<in> set u \<and> f y \<noteq> [n1, n2] then filter (\<lambda>c. c \<notin> set [n1, n2]) (f y) else f y)"
proof -
  let ?g = "fold (nt_box_f [n1, n2] n1) u f"
  have g: "?g z = (if z \<in> set u \<and> f z \<noteq> [n1, n2] then filter (\<lambda>c. c \<noteq> n1) (f z) else f z)" for z
    by (rule fold_nt_box_f[OF d])
  have ne: "filter (\<lambda>c. c \<noteq> n1) s \<noteq> [n1, n2]" for s
  proof
    assume "filter (\<lambda>c. c \<noteq> n1) s = [n1, n2]"
    then have "n1 \<in> set (filter (\<lambda>c. c \<noteq> n1) s)" by simp
    then show False by simp
  qed
  have "nt_pair_f u [n1, n2] f y = fold (nt_box_f [n1, n2] n2) u ?g y"
    by (simp add: nt_pair_f_def)
  also have "\<dots> = (if y \<in> set u \<and> ?g y \<noteq> [n1, n2] then filter (\<lambda>c. c \<noteq> n2) (?g y) else ?g y)"
    by (rule fold_nt_box_f[OF d])
  also have "\<dots> = (if y \<in> set u \<and> f y \<noteq> [n1, n2] then filter (\<lambda>c. c \<notin> set [n1, n2]) (f y) else f y)"
    using ne by (auto simp: g intro: filter_cong)
  finally show ?thesis .
qed

lemma nt_unit_f_single:
  assumes d: "distinct u" and t: "twins_num_of (map f u) = [numbers, numbers]"
  shows "nt_unit_f u f y =
     (if y \<in> set u \<and> f y \<noteq> numbers then filter (\<lambda>c. c \<notin> set numbers) (f y) else f y)"
proof -
  have "numbers \<in> set (twins_num_of (map f u))" using t by simp
  then have "length numbers = 2" by (simp add: twins_num_of_def)
  then obtain n1 n2 where n: "numbers = [n1, n2]"
    by (cases numbers; cases "tl numbers") auto
  let ?h = "nt_pair_f u numbers f"
  have h: "?h z = (if z \<in> set u \<and> f z \<noteq> numbers then filter (\<lambda>c. c \<notin> set numbers) (f z) else f z)" for z
    unfolding n by (rule nt_pair_f_apply[OF d])
  have ne: "filter (\<lambda>c. c \<notin> set numbers) s \<noteq> numbers" for s
  proof
    assume "filter (\<lambda>c. c \<notin> set numbers) s = numbers"
    then have "n1 \<in> set (filter (\<lambda>c. c \<notin> set numbers) s)" using n by simp
    then show False using n by simp
  qed
  have "nt_unit_f u f y = nt_pair_f u numbers ?h y"
    by (simp add: nt_unit_f_def t)
  also have "\<dots> = (if y \<in> set u \<and> ?h y \<noteq> numbers then filter (\<lambda>c. c \<notin> set numbers) (?h y) else ?h y)"
    unfolding n by (rule nt_pair_f_apply[OF d])
  also have "\<dots> = (if y \<in> set u \<and> f y \<noteq> numbers then filter (\<lambda>c. c \<notin> set numbers) (f y) else f y)"
    using ne by (auto simp: h)
  finally show ?thesis .
qed

lemma nt_unit_f_strip_twin:
  "distinct u \<Longrightarrow> twins_num_of (map f u) = [numbers, numbers] \<Longrightarrow>
   nt_unit_f u f = strip_twin u numbers f"
  by (rule ext) (simp add: nt_unit_f_single strip_twin_apply)

lemma oc_digit_f_noop:
  "length (filter (\<lambda>b. digit \<in> set (f b)) u) \<noteq> 1 \<Longrightarrow> oc_digit_f u digit f = f"
  by (simp add: oc_digit_f_def)

lemma oc_unit_f_noop:
  assumes "\<forall>d \<in> set cols. length (filter (\<lambda>x. d \<in> set x) (map f u)) \<noteq> 1"
  shows "oc_unit_f u f = f"
  unfolding oc_unit_f_def
proof (rule fold_noop)
  fix d assume "d \<in> set cols"
  with assms have "length (filter (\<lambda>x. d \<in> set x) (map f u)) \<noteq> 1" by blast
  then have "length (filter (\<lambda>b. d \<in> set (f b)) u) \<noteq> 1"
    by (simp add: filter_map comp_def)
  then show "oc_digit_f u d f = f" by (rule oc_digit_f_noop)
qed

lemma oc_unit_f_noop_full:
  assumes M: "\<forall>b. b \<notin> M \<longrightarrow> set cols \<subseteq> set (f b)"
    and two: "2 \<le> length (filter (\<lambda>b. b \<notin> M) u)"
  shows "oc_unit_f u f = f"
  unfolding oc_unit_f_def
proof (rule fold_noop)
  fix d assume d: "d \<in> set cols"
  have "length (filter (\<lambda>b. b \<notin> M) u) \<le> length (filter (\<lambda>b. d \<in> set (f b)) u)"
    by (rule length_filter_mono) (use M d in blast)
  with two have "length (filter (\<lambda>b. d \<in> set (f b)) u) \<noteq> 1" by simp
  then show "oc_digit_f u d f = f" by (rule oc_digit_f_noop)
qed

text \<open>A round after which every box still has two candidates or more, from a table with no
  solved box: \<open>reduce_puzzle\<close> returns after that round, and the log is as it was.\<close>

lemma round_tab_quiet:
  "\<exists>s1 s2 l1. eliminate (tab f, l) = Inr s1 \<and> naked_twins s1 = Inr s2 \<and>
      only_choice s2 = Inr (tab (round_f f), l1) \<and>
      (l1 = l \<or> (\<exists>b \<in> set boxes. length (round_f f b) \<le> 1))"
proof -
  obtain s1 s2 l1 where r: "eliminate (tab f, l) = Inr s1" "naked_twins s1 = Inr s2"
      "only_choice s2 = Inr (tab (round_f f), l1)"
    using round_tab by blast
  then have "step_ok (tab f, l) (tab (round_f f), l1)" by (rule round_step_ok)
  then have "l1 = l \<or> (\<exists>p \<in> set (tab (round_f f)). length (snd p) \<le> 1)"
    by (simp add: step_ok_def)
  then have "l1 = l \<or> (\<exists>b \<in> set boxes. length (round_f f b) \<le> 1)"
    by (auto simp: tab_def)
  with r show ?thesis by blast
qed

lemma reduce_puzzle_one_round:
  assumes before: "\<forall>b \<in> set boxes. length (f b) \<noteq> 1"
    and after: "\<forall>b \<in> set boxes. 1 < length (round_f f b)"
  shows "reduce_puzzle (tab f, l) = Inr (PyDict (tab (round_f f)), l)"
proof -
  obtain s1 s2 l1 where r: "eliminate (tab f, l) = Inr s1" "naked_twins s1 = Inr s2"
      "only_choice s2 = Inr (tab (round_f f), l1)"
      "l1 = l \<or> (\<exists>b \<in> set boxes. length (round_f f b) \<le> 1)"
    using round_tab_quiet by blast
  from r(4) after have l1: "l1 = l" by fastforce
  have b1: "with_len_f f (Suc 0) = []" using before by (simp add: with_len_f_def filter_empty_conv)
  have a1: "with_len_f (round_f f) (Suc 0) = []" using after
    by (auto simp: with_len_f_def filter_empty_conv)
  have a0: "with_len_f (round_f f) 0 = []" using after
    by (auto simp: with_len_f_def filter_empty_conv)
  show ?thesis
    by (simp add: reduce_puzzle.simps[of "tab f" l] r(1,2,3) l1 boxes_with_len_tab b1 a1 a0 Let_def)
qed
section \<open>Applying \<open>reduce_puzzle\<close> twice (claim C4)\<close>

subsection \<open>A grid on which the loop stops before the rules are exhausted\<close>

text \<open>The grid \<open>stall_before\<close>: \<open>A1 = 1234\<close>, \<open>A9 = 34\<close>, \<open>D1 = G1 = 12\<close>, every other box
  \<open>123456789\<close>. In the first round \<^verbatim>\<open>naked_twins\<close> visits row \<open>A\<close> before column 1; the twins
  \<open>D1\<close>, \<open>G1\<close> of column 1 then take \<open>1\<close> and \<open>2\<close> from the rest of the column, which makes
  \<open>A1 = 34\<close> a twin of \<open>A9\<close> in row \<open>A\<close>. No box is solved before or after the round, so the
  loop stops with \<open>stall_after\<close>. A second call starts with row \<open>A\<close> and takes \<open>3\<close> and \<open>4\<close>
  from \<open>A2\<close>, ..., \<open>A8\<close>: \<open>stall_again\<close>.\<close>

definition stall_before :: "string \<Rightarrow> string" where
  "stall_before = (\<lambda>b. ''123456789'')
     (''A1'' := ''1234'', ''A9'' := ''34'', ''D1'' := ''12'', ''G1'' := ''12'')"

definition stall_after :: "string \<Rightarrow> string" where
  "stall_after = stall_before
     (''A1'' := ''34'', ''B1'' := ''3456789'', ''C1'' := ''3456789'', ''E1'' := ''3456789'',
      ''F1'' := ''3456789'', ''H1'' := ''3456789'', ''I1'' := ''3456789'')"

definition stall_again :: "string \<Rightarrow> string" where
  "stall_again = stall_after
     (''A2'' := ''1256789'', ''A3'' := ''1256789'', ''A4'' := ''1256789'', ''A5'' := ''1256789'',
      ''A6'' := ''1256789'', ''A7'' := ''1256789'', ''A8'' := ''1256789'')"

lemma unitlist_split:
  "unitlist =
     [[''A1'', ''A2'', ''A3'', ''A4'', ''A5'', ''A6'', ''A7'', ''A8'', ''A9''],
      [''B1'', ''B2'', ''B3'', ''B4'', ''B5'', ''B6'', ''B7'', ''B8'', ''B9''],
      [''C1'', ''C2'', ''C3'', ''C4'', ''C5'', ''C6'', ''C7'', ''C8'', ''C9''],
      [''D1'', ''D2'', ''D3'', ''D4'', ''D5'', ''D6'', ''D7'', ''D8'', ''D9''],
      [''E1'', ''E2'', ''E3'', ''E4'', ''E5'', ''E6'', ''E7'', ''E8'', ''E9''],
      [''F1'', ''F2'', ''F3'', ''F4'', ''F5'', ''F6'', ''F7'', ''F8'', ''F9''],
      [''G1'', ''G2'', ''G3'', ''G4'', ''G5'', ''G6'', ''G7'', ''G8'', ''G9''],
      [''H1'', ''H2'', ''H3'', ''H4'', ''H5'', ''H6'', ''H7'', ''H8'', ''H9''],
      [''I1'', ''I2'', ''I3'', ''I4'', ''I5'', ''I6'', ''I7'', ''I8'', ''I9'']] @
     [''A1'', ''B1'', ''C1'', ''D1'', ''E1'', ''F1'', ''G1'', ''H1'', ''I1''] #
     drop 10 unitlist"
  by (simp add: unitlist_eval)

lemma fold_split: "fold g (xs @ y # ys) s = fold g ys (g y (fold g xs s))"
  by simp

lemma unitlist_split2:
  "unitlist =
     [''A1'', ''A2'', ''A3'', ''A4'', ''A5'', ''A6'', ''A7'', ''A8'', ''A9''] #
     [[''B1'', ''B2'', ''B3'', ''B4'', ''B5'', ''B6'', ''B7'', ''B8'', ''B9''],
      [''C1'', ''C2'', ''C3'', ''C4'', ''C5'', ''C6'', ''C7'', ''C8'', ''C9''],
      [''D1'', ''D2'', ''D3'', ''D4'', ''D5'', ''D6'', ''D7'', ''D8'', ''D9''],
      [''E1'', ''E2'', ''E3'', ''E4'', ''E5'', ''E6'', ''E7'', ''E8'', ''E9''],
      [''F1'', ''F2'', ''F3'', ''F4'', ''F5'', ''F6'', ''F7'', ''F8'', ''F9''],
      [''G1'', ''G2'', ''G3'', ''G4'', ''G5'', ''G6'', ''G7'', ''G8'', ''G9''],
      [''H1'', ''H2'', ''H3'', ''H4'', ''H5'', ''H6'', ''H7'', ''H8'', ''H9''],
      [''I1'', ''I2'', ''I3'', ''I4'', ''I5'', ''I6'', ''I7'', ''I8'', ''I9'']] @
     [''A1'', ''B1'', ''C1'', ''D1'', ''E1'', ''F1'', ''G1'', ''H1'', ''I1''] #
     drop 10 unitlist"
  by (simp add: unitlist_eval)

lemma fold_split2: "fold g (x # xs @ y # ys) s = fold g ys (g y (fold g xs (g x s)))"
  by simp

lemma t_len1: "length (stall_before b) \<noteq> 1"
  by (simp add: stall_before_def)

lemma t_L0: "length (stall_before b) = 2 \<longrightarrow> b \<in> {''A9'', ''D1'', ''G1''}"
  by (simp add: stall_before_def)

lemma t_twins: "twins_num_of (map stall_before [''A1'', ''B1'', ''C1'', ''D1'', ''E1'', ''F1'', ''G1'', ''H1'', ''I1'']) = [''12'', ''12'']"
  by (simp add: stall_before_def twins_num_of_def)

lemma t_strip: "strip_twin [''A1'', ''B1'', ''C1'', ''D1'', ''E1'', ''F1'', ''G1'', ''H1'', ''I1''] ''12'' stall_before = stall_after"
  by (simp add: strip_twin_def stall_before_def stall_after_def)

lemma t_pre:
  "fold nt_unit_f
     [[''A1'', ''A2'', ''A3'', ''A4'', ''A5'', ''A6'', ''A7'', ''A8'', ''A9''],
      [''B1'', ''B2'', ''B3'', ''B4'', ''B5'', ''B6'', ''B7'', ''B8'', ''B9''],
      [''C1'', ''C2'', ''C3'', ''C4'', ''C5'', ''C6'', ''C7'', ''C8'', ''C9''],
      [''D1'', ''D2'', ''D3'', ''D4'', ''D5'', ''D6'', ''D7'', ''D8'', ''D9''],
      [''E1'', ''E2'', ''E3'', ''E4'', ''E5'', ''E6'', ''E7'', ''E8'', ''E9''],
      [''F1'', ''F2'', ''F3'', ''F4'', ''F5'', ''F6'', ''F7'', ''F8'', ''F9''],
      [''G1'', ''G2'', ''G3'', ''G4'', ''G5'', ''G6'', ''G7'', ''G8'', ''G9''],
      [''H1'', ''H2'', ''H3'', ''H4'', ''H5'', ''H6'', ''H7'', ''H8'', ''H9''],
      [''I1'', ''I2'', ''I3'', ''I4'', ''I5'', ''I6'', ''I7'', ''I8'', ''I9'']]
     stall_before = stall_before"
proof (rule fold_noop)
  fix u assume "u \<in> set
     [[''A1'', ''A2'', ''A3'', ''A4'', ''A5'', ''A6'', ''A7'', ''A8'', ''A9''],
      [''B1'', ''B2'', ''B3'', ''B4'', ''B5'', ''B6'', ''B7'', ''B8'', ''B9''],
      [''C1'', ''C2'', ''C3'', ''C4'', ''C5'', ''C6'', ''C7'', ''C8'', ''C9''],
      [''D1'', ''D2'', ''D3'', ''D4'', ''D5'', ''D6'', ''D7'', ''D8'', ''D9''],
      [''E1'', ''E2'', ''E3'', ''E4'', ''E5'', ''E6'', ''E7'', ''E8'', ''E9''],
      [''F1'', ''F2'', ''F3'', ''F4'', ''F5'', ''F6'', ''F7'', ''F8'', ''F9''],
      [''G1'', ''G2'', ''G3'', ''G4'', ''G5'', ''G6'', ''G7'', ''G8'', ''G9''],
      [''H1'', ''H2'', ''H3'', ''H4'', ''H5'', ''H6'', ''H7'', ''H8'', ''H9''],
      [''I1'', ''I2'', ''I3'', ''I4'', ''I5'', ''I6'', ''I7'', ''I8'', ''I9'']]"
  then have "length (filter (\<lambda>b. b \<in> {''A9'', ''D1'', ''G1''}) u) \<le> 1" by auto
  with t_L0 show "nt_unit_f u stall_before = stall_before"
    by (intro nt_unit_f_noop_set[where L = "{''A9'', ''D1'', ''G1''}"]) auto
qed

lemma t_L1: "length (stall_after b) = 2 \<longrightarrow> b \<in> {''A1'', ''A9'', ''D1'', ''G1''}"
  by (simp add: stall_after_def stall_before_def)

lemma t_post: "fold nt_unit_f (drop 10 unitlist) stall_after = stall_after"
proof (rule fold_noop)
  fix u assume "u \<in> set (drop 10 unitlist)"
  then have "length (filter (\<lambda>b. b \<in> {''A1'', ''A9'', ''D1'', ''G1''}) u) \<le> 1"
    by (auto simp: unitlist_eval)
  with t_L1 show "nt_unit_f u stall_after = stall_after"
    by (intro nt_unit_f_noop_set[where L = "{''A1'', ''A9'', ''D1'', ''G1''}"]) auto
qed

lemma t_naked_twins: "naked_twins_f stall_before = stall_after"
proof -
  have step: "nt_unit_f [''A1'', ''B1'', ''C1'', ''D1'', ''E1'', ''F1'', ''G1'', ''H1'', ''I1''] stall_before
        = stall_after"
    by (subst nt_unit_f_strip_twin[OF _ t_twins]) (simp_all add: t_strip)
  show ?thesis
    unfolding naked_twins_f_def
    by (subst unitlist_split, subst fold_split) (simp only: t_pre step t_post)
qed

lemma t_full: "b \<notin> {''A1'', ''A9'', ''D1'', ''G1'', ''B1'', ''C1'', ''E1'', ''F1'', ''H1'', ''I1''}
    \<longrightarrow> set cols \<subseteq> set (stall_after b)"
  by (simp add: stall_after_def stall_before_def cols_eval)

lemma t_oc_pre:
  "fold oc_unit_f
     [[''A1'', ''A2'', ''A3'', ''A4'', ''A5'', ''A6'', ''A7'', ''A8'', ''A9''],
      [''B1'', ''B2'', ''B3'', ''B4'', ''B5'', ''B6'', ''B7'', ''B8'', ''B9''],
      [''C1'', ''C2'', ''C3'', ''C4'', ''C5'', ''C6'', ''C7'', ''C8'', ''C9''],
      [''D1'', ''D2'', ''D3'', ''D4'', ''D5'', ''D6'', ''D7'', ''D8'', ''D9''],
      [''E1'', ''E2'', ''E3'', ''E4'', ''E5'', ''E6'', ''E7'', ''E8'', ''E9''],
      [''F1'', ''F2'', ''F3'', ''F4'', ''F5'', ''F6'', ''F7'', ''F8'', ''F9''],
      [''G1'', ''G2'', ''G3'', ''G4'', ''G5'', ''G6'', ''G7'', ''G8'', ''G9''],
      [''H1'', ''H2'', ''H3'', ''H4'', ''H5'', ''H6'', ''H7'', ''H8'', ''H9''],
      [''I1'', ''I2'', ''I3'', ''I4'', ''I5'', ''I6'', ''I7'', ''I8'', ''I9'']]
     stall_after = stall_after"
proof (rule fold_noop)
  fix u assume "u \<in> set
     [[''A1'', ''A2'', ''A3'', ''A4'', ''A5'', ''A6'', ''A7'', ''A8'', ''A9''],
      [''B1'', ''B2'', ''B3'', ''B4'', ''B5'', ''B6'', ''B7'', ''B8'', ''B9''],
      [''C1'', ''C2'', ''C3'', ''C4'', ''C5'', ''C6'', ''C7'', ''C8'', ''C9''],
      [''D1'', ''D2'', ''D3'', ''D4'', ''D5'', ''D6'', ''D7'', ''D8'', ''D9''],
      [''E1'', ''E2'', ''E3'', ''E4'', ''E5'', ''E6'', ''E7'', ''E8'', ''E9''],
      [''F1'', ''F2'', ''F3'', ''F4'', ''F5'', ''F6'', ''F7'', ''F8'', ''F9''],
      [''G1'', ''G2'', ''G3'', ''G4'', ''G5'', ''G6'', ''G7'', ''G8'', ''G9''],
      [''H1'', ''H2'', ''H3'', ''H4'', ''H5'', ''H6'', ''H7'', ''H8'', ''H9''],
      [''I1'', ''I2'', ''I3'', ''I4'', ''I5'', ''I6'', ''I7'', ''I8'', ''I9'']]"
  then have "2 \<le> length (filter (\<lambda>b. b \<notin> {''A1'', ''A9'', ''D1'', ''G1'', ''B1'', ''C1'', ''E1'', ''F1'', ''H1'', ''I1''}) u)"
    by auto
  with t_full show "oc_unit_f u stall_after = stall_after"
    by (intro oc_unit_f_noop_full[where M = "{''A1'', ''A9'', ''D1'', ''G1'', ''B1'', ''C1'', ''E1'', ''F1'', ''H1'', ''I1''}"]) auto
qed

lemma t_oc_post: "fold oc_unit_f (drop 10 unitlist) stall_after = stall_after"
proof (rule fold_noop)
  fix u assume "u \<in> set (drop 10 unitlist)"
  then have "2 \<le> length (filter (\<lambda>b. b \<notin> {''A1'', ''A9'', ''D1'', ''G1'', ''B1'', ''C1'', ''E1'', ''F1'', ''H1'', ''I1''}) u)"
    by (auto simp: unitlist_eval)
  with t_full show "oc_unit_f u stall_after = stall_after"
    by (intro oc_unit_f_noop_full[where M = "{''A1'', ''A9'', ''D1'', ''G1'', ''B1'', ''C1'', ''E1'', ''F1'', ''H1'', ''I1''}"]) auto
qed

lemma t_oc_col1:
  "oc_unit_f [''A1'', ''B1'', ''C1'', ''D1'', ''E1'', ''F1'', ''G1'', ''H1'', ''I1''] stall_after = stall_after"
  by (rule oc_unit_f_noop) (simp add: stall_after_def stall_before_def cols_eval)

lemma t_only_choice: "only_choice_f stall_after = stall_after"
  unfolding only_choice_f_def
  by (subst unitlist_split, subst fold_split) (simp only: t_oc_pre t_oc_col1 t_oc_post)

lemma t_round: "round_f stall_before = stall_after"
proof -
  have "eliminate_f stall_before = stall_before"
    by (rule eliminate_f_noop) (intro ballI t_len1)
  then show ?thesis
    by (simp add: round_f_def t_naked_twins t_only_choice)
qed

lemma t_len2: "1 < length (stall_after b)"
  by (simp add: stall_after_def stall_before_def)

lemma reduce_stall_before:
  "reduce_puzzle (tab stall_before, l) = Inr (PyDict (tab stall_after), l)"
proof -
  have "reduce_puzzle (tab stall_before, l) = Inr (PyDict (tab (round_f stall_before)), l)"
  proof (rule reduce_puzzle_one_round)
    show "\<forall>b \<in> set boxes. length (stall_before b) \<noteq> 1" by (intro ballI t_len1)
    show "\<forall>b \<in> set boxes. 1 < length (round_f stall_before b)"
      unfolding t_round by (intro ballI t_len2)
  qed
  then show ?thesis by (simp only: t_round)
qed

text \<open>The second call.\<close>

lemma u_len1: "length (stall_after b) \<noteq> 1"
  by (simp add: stall_after_def stall_before_def)

lemma u_twins: "twins_num_of (map stall_after [''A1'', ''A2'', ''A3'', ''A4'', ''A5'', ''A6'', ''A7'', ''A8'', ''A9'']) = [''34'', ''34'']"
  by (simp add: stall_after_def stall_before_def twins_num_of_def)

lemma u_strip: "strip_twin [''A1'', ''A2'', ''A3'', ''A4'', ''A5'', ''A6'', ''A7'', ''A8'', ''A9''] ''34'' stall_after = stall_again"
  by (simp add: strip_twin_def stall_after_def stall_before_def stall_again_def)

lemma u_rowA: "nt_unit_f [''A1'', ''A2'', ''A3'', ''A4'', ''A5'', ''A6'', ''A7'', ''A8'', ''A9''] stall_after = stall_again"
  by (subst nt_unit_f_strip_twin[OF _ u_twins]) (simp_all add: u_strip)

lemma u_L: "length (stall_again b) = 2 \<longrightarrow> b \<in> {''A1'', ''A9'', ''D1'', ''G1''}"
  by (simp add: stall_again_def stall_after_def stall_before_def)

lemma u_rows:
  "fold nt_unit_f
     [[''B1'', ''B2'', ''B3'', ''B4'', ''B5'', ''B6'', ''B7'', ''B8'', ''B9''],
      [''C1'', ''C2'', ''C3'', ''C4'', ''C5'', ''C6'', ''C7'', ''C8'', ''C9''],
      [''D1'', ''D2'', ''D3'', ''D4'', ''D5'', ''D6'', ''D7'', ''D8'', ''D9''],
      [''E1'', ''E2'', ''E3'', ''E4'', ''E5'', ''E6'', ''E7'', ''E8'', ''E9''],
      [''F1'', ''F2'', ''F3'', ''F4'', ''F5'', ''F6'', ''F7'', ''F8'', ''F9''],
      [''G1'', ''G2'', ''G3'', ''G4'', ''G5'', ''G6'', ''G7'', ''G8'', ''G9''],
      [''H1'', ''H2'', ''H3'', ''H4'', ''H5'', ''H6'', ''H7'', ''H8'', ''H9''],
      [''I1'', ''I2'', ''I3'', ''I4'', ''I5'', ''I6'', ''I7'', ''I8'', ''I9'']]
     stall_again = stall_again"
proof (rule fold_noop)
  fix u assume "u \<in> set
     [[''B1'', ''B2'', ''B3'', ''B4'', ''B5'', ''B6'', ''B7'', ''B8'', ''B9''],
      [''C1'', ''C2'', ''C3'', ''C4'', ''C5'', ''C6'', ''C7'', ''C8'', ''C9''],
      [''D1'', ''D2'', ''D3'', ''D4'', ''D5'', ''D6'', ''D7'', ''D8'', ''D9''],
      [''E1'', ''E2'', ''E3'', ''E4'', ''E5'', ''E6'', ''E7'', ''E8'', ''E9''],
      [''F1'', ''F2'', ''F3'', ''F4'', ''F5'', ''F6'', ''F7'', ''F8'', ''F9''],
      [''G1'', ''G2'', ''G3'', ''G4'', ''G5'', ''G6'', ''G7'', ''G8'', ''G9''],
      [''H1'', ''H2'', ''H3'', ''H4'', ''H5'', ''H6'', ''H7'', ''H8'', ''H9''],
      [''I1'', ''I2'', ''I3'', ''I4'', ''I5'', ''I6'', ''I7'', ''I8'', ''I9'']]"
  then have "length (filter (\<lambda>b. b \<in> {''A1'', ''A9'', ''D1'', ''G1''}) u) \<le> 1" by auto
  with u_L show "nt_unit_f u stall_again = stall_again"
    by (intro nt_unit_f_noop_set[where L = "{''A1'', ''A9'', ''D1'', ''G1''}"]) auto
qed

lemma u_twins_col1: "twins_num_of (map stall_again [''A1'', ''B1'', ''C1'', ''D1'', ''E1'', ''F1'', ''G1'', ''H1'', ''I1'']) = [''12'', ''12'']"
  by (simp add: stall_again_def stall_after_def stall_before_def twins_num_of_def)

lemma u_col1: "nt_unit_f [''A1'', ''B1'', ''C1'', ''D1'', ''E1'', ''F1'', ''G1'', ''H1'', ''I1''] stall_again = stall_again"
proof (rule ext)
  fix y
  have "\<forall>y \<in> set [''A1'', ''B1'', ''C1'', ''D1'', ''E1'', ''F1'', ''G1'', ''H1'', ''I1''].
      stall_again y \<noteq> ''12'' \<longrightarrow> filter (\<lambda>c. c \<notin> set ''12'') (stall_again y) = stall_again y"
    by (simp add: stall_again_def stall_after_def stall_before_def)
  then show "nt_unit_f [''A1'', ''B1'', ''C1'', ''D1'', ''E1'', ''F1'', ''G1'', ''H1'', ''I1''] stall_again y = stall_again y"
    by (subst nt_unit_f_single[OF _ u_twins_col1]) auto
qed

lemma u_post: "fold nt_unit_f (drop 10 unitlist) stall_again = stall_again"
proof (rule fold_noop)
  fix u assume "u \<in> set (drop 10 unitlist)"
  then have "length (filter (\<lambda>b. b \<in> {''A1'', ''A9'', ''D1'', ''G1''}) u) \<le> 1"
    by (auto simp: unitlist_eval)
  with u_L show "nt_unit_f u stall_again = stall_again"
    by (intro nt_unit_f_noop_set[where L = "{''A1'', ''A9'', ''D1'', ''G1''}"]) auto
qed

lemma u_naked_twins: "naked_twins_f stall_after = stall_again"
  unfolding naked_twins_f_def
  by (subst unitlist_split2, subst fold_split2) (simp only: u_rowA u_rows u_col1 u_post)

lemma u_full: "b \<notin> {''A1'', ''A2'', ''A3'', ''A4'', ''A5'', ''A6'', ''A7'', ''A8'', ''A9'', ''B1'', ''C1'', ''D1'', ''E1'', ''F1'', ''G1'', ''H1'', ''I1''}
    \<longrightarrow> set cols \<subseteq> set (stall_again b)"
  by (simp add: stall_again_def stall_after_def stall_before_def cols_eval)

lemma u_oc_rowA: "oc_unit_f [''A1'', ''A2'', ''A3'', ''A4'', ''A5'', ''A6'', ''A7'', ''A8'', ''A9''] stall_again = stall_again"
  by (rule oc_unit_f_noop) (simp add: stall_again_def stall_after_def stall_before_def cols_eval)

lemma u_oc_rows:
  "fold oc_unit_f
     [[''B1'', ''B2'', ''B3'', ''B4'', ''B5'', ''B6'', ''B7'', ''B8'', ''B9''],
      [''C1'', ''C2'', ''C3'', ''C4'', ''C5'', ''C6'', ''C7'', ''C8'', ''C9''],
      [''D1'', ''D2'', ''D3'', ''D4'', ''D5'', ''D6'', ''D7'', ''D8'', ''D9''],
      [''E1'', ''E2'', ''E3'', ''E4'', ''E5'', ''E6'', ''E7'', ''E8'', ''E9''],
      [''F1'', ''F2'', ''F3'', ''F4'', ''F5'', ''F6'', ''F7'', ''F8'', ''F9''],
      [''G1'', ''G2'', ''G3'', ''G4'', ''G5'', ''G6'', ''G7'', ''G8'', ''G9''],
      [''H1'', ''H2'', ''H3'', ''H4'', ''H5'', ''H6'', ''H7'', ''H8'', ''H9''],
      [''I1'', ''I2'', ''I3'', ''I4'', ''I5'', ''I6'', ''I7'', ''I8'', ''I9'']]
     stall_again = stall_again"
proof (rule fold_noop)
  fix u assume "u \<in> set
     [[''B1'', ''B2'', ''B3'', ''B4'', ''B5'', ''B6'', ''B7'', ''B8'', ''B9''],
      [''C1'', ''C2'', ''C3'', ''C4'', ''C5'', ''C6'', ''C7'', ''C8'', ''C9''],
      [''D1'', ''D2'', ''D3'', ''D4'', ''D5'', ''D6'', ''D7'', ''D8'', ''D9''],
      [''E1'', ''E2'', ''E3'', ''E4'', ''E5'', ''E6'', ''E7'', ''E8'', ''E9''],
      [''F1'', ''F2'', ''F3'', ''F4'', ''F5'', ''F6'', ''F7'', ''F8'', ''F9''],
      [''G1'', ''G2'', ''G3'', ''G4'', ''G5'', ''G6'', ''G7'', ''G8'', ''G9''],
      [''H1'', ''H2'', ''H3'', ''H4'', ''H5'', ''H6'', ''H7'', ''H8'', ''H9''],
      [''I1'', ''I2'', ''I3'', ''I4'', ''I5'', ''I6'', ''I7'', ''I8'', ''I9'']]"
  then have "2 \<le> length (filter (\<lambda>b. b \<notin> {''A1'', ''A2'', ''A3'', ''A4'', ''A5'', ''A6'', ''A7'', ''A8'', ''A9'', ''B1'', ''C1'', ''D1'', ''E1'', ''F1'', ''G1'', ''H1'', ''I1''}) u)"
    by auto
  with u_full show "oc_unit_f u stall_again = stall_again"
    by (intro oc_unit_f_noop_full[where M = "{''A1'', ''A2'', ''A3'', ''A4'', ''A5'', ''A6'', ''A7'', ''A8'', ''A9'', ''B1'', ''C1'', ''D1'', ''E1'', ''F1'', ''G1'', ''H1'', ''I1''}"]) auto
qed

lemma u_oc_col1: "oc_unit_f [''A1'', ''B1'', ''C1'', ''D1'', ''E1'', ''F1'', ''G1'', ''H1'', ''I1''] stall_again = stall_again"
  by (rule oc_unit_f_noop) (simp add: stall_again_def stall_after_def stall_before_def cols_eval)

lemma u_oc_post: "fold oc_unit_f (drop 10 unitlist) stall_again = stall_again"
proof (rule fold_noop)
  fix u assume "u \<in> set (drop 10 unitlist)"
  then have "2 \<le> length (filter (\<lambda>b. b \<notin> {''A1'', ''A2'', ''A3'', ''A4'', ''A5'', ''A6'', ''A7'', ''A8'', ''A9'', ''B1'', ''C1'', ''D1'', ''E1'', ''F1'', ''G1'', ''H1'', ''I1''}) u)"
    by (auto simp: unitlist_eval)
  with u_full show "oc_unit_f u stall_again = stall_again"
    by (intro oc_unit_f_noop_full[where M = "{''A1'', ''A2'', ''A3'', ''A4'', ''A5'', ''A6'', ''A7'', ''A8'', ''A9'', ''B1'', ''C1'', ''D1'', ''E1'', ''F1'', ''G1'', ''H1'', ''I1''}"]) auto
qed

lemma u_only_choice: "only_choice_f stall_again = stall_again"
  unfolding only_choice_f_def
  by (subst unitlist_split2, subst fold_split2)
    (simp only: u_oc_rowA u_oc_rows u_oc_col1 u_oc_post)

lemma u_round: "round_f stall_after = stall_again"
proof -
  have "eliminate_f stall_after = stall_after"
    by (rule eliminate_f_noop) (intro ballI u_len1)
  then show ?thesis
    by (simp add: round_f_def u_naked_twins u_only_choice)
qed

lemma u_len2: "1 < length (stall_again b)"
  by (simp add: stall_again_def stall_after_def stall_before_def)

lemma reduce_stall_after:
  "reduce_puzzle (tab stall_after, l) = Inr (PyDict (tab stall_again), l)"
proof -
  have "reduce_puzzle (tab stall_after, l) = Inr (PyDict (tab (round_f stall_after)), l)"
  proof (rule reduce_puzzle_one_round)
    show "\<forall>b \<in> set boxes. length (stall_after b) \<noteq> 1" by (intro ballI u_len1)
    show "\<forall>b \<in> set boxes. 1 < length (round_f stall_after b)"
      unfolding u_round by (intro ballI u_len2)
  qed
  then show ?thesis by (simp only: u_round)
qed

lemma stall_again_differs: "tab stall_again \<noteq> tab stall_after"
proof
  assume "tab stall_again = tab stall_after"
  then have "\<forall>b \<in> set boxes. stall_again b = stall_after b" by (simp only: tab_eq_iff)
  moreover have "''A2'' \<in> set boxes" by (simp add: in_boxes)
  ultimately have "stall_again ''A2'' = stall_after ''A2''" by blast
  then show False by (simp add: stall_again_def stall_after_def stall_before_def)
qed

text \<open>
  Claim C4 as stated: applying \<^verbatim>\<open>reduce_puzzle\<close> twice gives the same grid as applying it once.
  It fails on \<open>stall_before\<close>: the first call returns \<open>stall_after\<close>, and \<^verbatim>\<open>reduce_puzzle\<close> applied
  to \<open>stall_after\<close> returns \<open>stall_again\<close>, in which \<open>A2\<close> holds \<open>1256789\<close> and not
  \<open>123456789\<close>.
\<close>

theorem C4_not_idempotent_counterexample:
  "reduce_puzzle (tab stall_before, []) = Inr (PyDict (tab stall_after), []) \<and>
   reduce_puzzle (tab stall_after, []) = Inr (PyDict (tab stall_again), []) \<and>
   tab stall_again \<noteq> tab stall_after \<and>
   getitem (tab stall_after) ''A2'' = Inr ''123456789'' \<and>
   getitem (tab stall_again) ''A2'' = Inr ''1256789''"
proof -
  have "''A2'' \<in> set boxes" by (simp add: in_boxes)
  then have "getitem (tab stall_after) ''A2'' = Inr ''123456789''"
    and "getitem (tab stall_again) ''A2'' = Inr ''1256789''"
    by (simp_all add: getitem_tab stall_again_def stall_after_def stall_before_def)
  with reduce_stall_before[of "[]"] reduce_stall_after[of "[]"] stall_again_differs
  show ?thesis by blast
qed

subsection \<open>When a second call changes nothing\<close>

lemma reduce_puzzle_no_empty:
  "reduce_puzzle (v, l) = Inr (PyDict v1, l1) \<Longrightarrow> length (boxes_with_len v1 0) = 0"
proof (induction "total v" arbitrary: v l rule: less_induct)
  case less
  from less.prems obtain v' l' where r: "round_m (v, l) = Inr (v', l')"
    by (auto simp: reduce_puzzle_round[of v l] split: sum.splits)
  show ?case
  proof (cases "length (boxes_with_len v' 0) = 0 \<and>
                length (boxes_with_len v 1) \<noteq> length (boxes_with_len v' 1)")
    case False
    with less.prems r show ?thesis
      by (auto simp: reduce_puzzle_round[of v l] split: if_splits)
  next
    case True
    from r have "step_ok (v, l) (v', l')" by (rule round_m_step_ok)
    then have sh: "shrinks v v'" by (simp add: step_ok_def)
    from True have "v' \<noteq> v" by auto
    with sh have lt: "total v' < total v" by (rule shrinks_total_less)
    from less.prems r True have "reduce_puzzle (v', l') = Inr (PyDict v1, l1)"
      by (simp add: reduce_puzzle_round[of v l])
    with lt show ?thesis by (rule less.hyps)
  qed
qed

lemma reduce_puzzle_again:
  assumes "reduce_puzzle (v, l) = Inr (PyDict v1, l1)"
  shows "(\<exists>l2. reduce_puzzle (v1, l1) = Inr (PyDict v1, l2)) \<longleftrightarrow>
         (\<exists>l2. round_m (v1, l1) = Inr (v1, l2))"
proof
  assume "\<exists>l2. reduce_puzzle (v1, l1) = Inr (PyDict v1, l2)"
  then obtain l2 where a: "reduce_puzzle (v1, l1) = Inr (PyDict v1, l2)" by blast
  then obtain v' l' where r: "round_m (v1, l1) = Inr (v', l')"
    by (auto simp: reduce_puzzle_round[of v1 l1] split: sum.splits)
  then have "step_ok (v1, l1) (v', l')" by (rule round_m_step_ok)
  then have sh: "shrinks v1 v'" by (simp add: step_ok_def)
  have "v' = v1"
  proof (cases "length (boxes_with_len v' 0) = 0 \<and>
                length (boxes_with_len v1 1) \<noteq> length (boxes_with_len v' 1)")
    case False
    with a r show ?thesis
      by (auto simp: reduce_puzzle_round[of v1 l1] split: if_splits)
  next
    case True
    with a r have "reduce_puzzle (v', l') = Inr (PyDict v1, l2)"
      by (simp add: reduce_puzzle_round[of v1 l1])
    then have "shrinks v' v1" by (rule reduce_puzzle_shrinks)
    then have "total v1 \<le> total v'" by (rule shrinks_total_le)
    moreover from sh have "total v' \<le> total v1" by (rule shrinks_total_le)
    ultimately have "total v' = total v1" by simp
    with sh show ?thesis by (rule shrinks_total_eq)
  qed
  with r show "\<exists>l2. round_m (v1, l1) = Inr (v1, l2)" by blast
next
  assume "\<exists>l2. round_m (v1, l1) = Inr (v1, l2)"
  then obtain l2 where r: "round_m (v1, l1) = Inr (v1, l2)" by blast
  from assms have "length (boxes_with_len v1 0) = 0" by (rule reduce_puzzle_no_empty)
  with r have "reduce_puzzle (v1, l1) = Inr (PyDict v1, l2)"
    by (simp add: reduce_puzzle_round[of v1 l1])
  then show "\<exists>l2. reduce_puzzle (v1, l1) = Inr (PyDict v1, l2)" by blast
qed

text \<open>The empty grid, on which a round changes nothing.\<close>

definition blank :: "string \<Rightarrow> string" where
  "blank = (\<lambda>b. ''123456789'')"

lemma round_f_blank: "round_f blank = blank"
proof -
  have e: "eliminate_f blank = blank"
    by (rule eliminate_f_noop) (simp add: blank_def)
  have n: "naked_twins_f blank = blank"
    unfolding naked_twins_f_def
    by (rule fold_noop, rule nt_unit_f_noop_set[where L = "{}"]) (simp_all add: blank_def)
  have o: "only_choice_f blank = blank"
    unfolding only_choice_f_def
  proof (rule fold_noop)
    fix u assume "u \<in> set unitlist"
    then have "length u = 9" by (simp add: unit_shape)
    then show "oc_unit_f u blank = blank"
      by (intro oc_unit_f_noop_full[where M = "{}"]) (simp_all add: blank_def cols_eval)
  qed
  show ?thesis by (simp add: round_f_def e n o)
qed

lemma reduce_blank: "reduce_puzzle (tab blank, l) = Inr (PyDict (tab blank), l)"
proof -
  have "reduce_puzzle (tab blank, l) = Inr (PyDict (tab (round_f blank)), l)"
    by (rule reduce_puzzle_one_round) (simp_all add: round_f_blank, simp_all add: blank_def)
  then show ?thesis by (simp only: round_f_blank)
qed

lemma round_m_tab: "\<exists>l1. round_m (tab f, l) = Inr (tab (round_f f), l1)"
  using round_tab[of f l] by (auto simp: round_m_def)

text \<open>
  Claim C4, amended: \<^verbatim>\<open>reduce_puzzle\<close> stops when a round leaves the number of solved boxes as
  it was, which does not mean that the rules have nothing left to remove. For every grid on
  which it returns a grid, applying it to that result returns the same grid if and only if one
  more round of \<^verbatim>\<open>eliminate\<close>, \<^verbatim>\<open>naked_twins\<close> and \<^verbatim>\<open>only_choice\<close> leaves the result as it is.
\<close>

theorem C4_reduce_puzzle_twice:
  assumes "reduce_puzzle (v, l) = Inr (PyDict v1, l1)"
  shows "(\<exists>l2. reduce_puzzle (v1, l1) = Inr (PyDict v1, l2)) \<longleftrightarrow>
         (\<exists>l2. round_m (v1, l1) = Inr (v1, l2))"
  using assms by (rule reduce_puzzle_again)

theorem C4_reduce_puzzle_twice_witness:
  "reduce_puzzle (tab blank, []) = Inr (PyDict (tab blank), []) \<and>
   (\<exists>l2. reduce_puzzle (tab blank, []) = Inr (PyDict (tab blank), l2)) \<and>
   (\<exists>l2. round_m (tab blank, []) = Inr (tab blank, l2))"
proof -
  have h: "reduce_puzzle (tab blank, []) = Inr (PyDict (tab blank), [])" by (rule reduce_blank)
  from h C4_reduce_puzzle_twice[OF h] show ?thesis by blast
qed
section \<open>The box on which \<open>search\<close> branches (claim C7)\<close>

text \<open>The order of strings is the lexicographic order on code points; on the labels of the
  boxes it is the row-major order in which \<open>boxes\<close> lists them.\<close>

lemma sorted_cross:
  assumes "sorted_wrt (<) a" and "sorted_wrt (<) b"
  shows "sorted_wrt (<) (cross a b)"
  using assms(1)
proof (induction a)
  case Nil
  then show ?case by (simp add: cross_def)
next
  case (Cons s a)
  have 1: "sorted_wrt (<) (map (\<lambda>t. [s, t]) b)"
    using assms(2) by (simp add: sorted_wrt_map)
  have 2: "sorted_wrt (<) (cross a b)" using Cons by simp
  have 3: "x < y" if "x \<in> set (map (\<lambda>t. [s, t]) b)" and "y \<in> set (cross a b)" for x y
    using that Cons.prems by (auto simp: cross_def)
  have "cross (s # a) b = map (\<lambda>t. [s, t]) b @ cross a b" by (simp add: cross_def)
  with 1 2 3 show ?case by (simp add: sorted_wrt_append)
qed

lemma boxes_sorted: "sorted_wrt (<) boxes"
  unfolding boxes_def
  by (rule sorted_cross) (simp_all add: rows_eval cols_eval less_char_def)

lemma getitem_cell: "wf_grid v \<Longrightarrow> b \<in> set boxes \<Longrightarrow> getitem v b = Inr (cell v b)"
  using getitem_tab[of b "cell v"] by (simp add: tab_cell)

lemma search_branch_cell:
  assumes wf: "wf_grid v"
    and red: "reduce_puzzle (v, l) = Inr (PyDict v1, l1)"
    and ns: "\<exists>b \<in> set boxes. length (cell v1 b) \<noteq> 1"
  shows "\<exists>s. search (v, l) = search_loop v1 s (cell v1 s) l1 \<and>
             s \<in> set boxes \<and> 1 < length (cell v1 s) \<and>
             (\<forall>b \<in> set boxes. 1 < length (cell v1 b) \<longrightarrow>
                length (cell v1 s) < length (cell v1 b) \<or>
                (length (cell v1 s) = length (cell v1 b) \<and> s \<le> b))"
proof -
  define f where "f = cell v"
  have v: "v = tab f" unfolding f_def using tab_cell[OF wf] by simp
  obtain r l' where r: "reduce_puzzle (tab f, l) = Inr (r, l')"
    "r = PyFalse \<or> (\<exists>f0 f'. r = PyDict (tab f') \<and> stalled_round f f0 f')"
    using reduce_puzzle_tab by blast
  with red v obtain f0 f' where f': "v1 = tab f'" "stalled_round f f0 f'" by auto
  have c: "cell v1 b = f' b" if "b \<in> set boxes" for b
    unfolding f'(1) using that by (rule cell_tab)
  have ne: "with_len_f f' 0 = []" using f'(2) unfolding stalled_round_def by blast
  from ns obtain b where b: "b \<in> set boxes" "length (f' b) \<noteq> 1" by (auto simp: c)
  from ne b(1) have "length (f' b) \<noteq> 0"
    by (auto simp: with_len_f_def filter_empty_conv)
  with b(2) have "1 < length (f' b)" by arith
  with b(1) have "(length (f' b), b) \<in> set (branch_pairs f')"
    by (auto simp: branch_pairs_def)
  then have "branch_pairs f' \<noteq> []" by auto
  then obtain n s where m: "py_min (branch_pairs f') = Inr (n, s)"
    using py_min_nonempty by fastforce
  have ns': "\<not> (\<forall>b \<in> set boxes. length (f' b) = 1)" using b by blast
  from red have red': "reduce_puzzle (tab f, l) = Inr (PyDict (tab f'), l1)"
    unfolding v f'(1) .
  from search_branch[OF red' ns' m]
  have br: "search (tab f, l) = search_loop (tab f') s (f' s) l1" and s: "s \<in> set boxes"
    by simp_all
  from m have "(n, s) \<in> set (branch_pairs f')" by (rule py_min_member)
  then have n: "n = length (f' s)" "1 < length (f' s)" by (auto simp: branch_pairs_def)
  have least: "length (f' s) < length (f' b) \<or> (length (f' s) = length (f' b) \<and> s \<le> b)"
    if "b \<in> set boxes" "1 < length (f' b)" for b
  proof -
    from that have "(length (f' b), b) \<in> set (branch_pairs f')"
      by (auto simp: branch_pairs_def)
    with m have "(n, s) \<le> (length (f' b), b)" by (rule py_min_least)
    then show ?thesis unfolding n(1) by (auto simp: less_eq_prod_def)
  qed
  from br s n(2) least show ?thesis
    unfolding v f'(1) by (intro exI[of _ s]) (simp add: cell_tab)
qed

text \<open>
  Claim C7: when \<^verbatim>\<open>reduce_puzzle\<close> has returned a grid in which some box is not solved, \<^verbatim>\<open>search\<close>
  runs its loop over the candidates of a box \<open>s\<close> that is not solved, that has the least
  number of candidates among the boxes that are not solved, and whose label is the least among
  the boxes that have that number of candidates. Labels are compared as strings, and that order is
  the row-major order of \<open>boxes\<close>.
\<close>

theorem C7_search_branches_on_least:
  assumes "wf_grid v"
    and "reduce_puzzle (v, l) = Inr (PyDict v1, l1)"
    and "\<exists>b \<in> set boxes. length (cell v1 b) \<noteq> 1"
  shows "(\<exists>s. search (v, l) = search_loop v1 s (cell v1 s) l1 \<and>
             s \<in> set boxes \<and> 1 < length (cell v1 s) \<and>
             (\<forall>b \<in> set boxes. 1 < length (cell v1 b) \<longrightarrow>
                length (cell v1 s) < length (cell v1 b) \<or>
                (length (cell v1 s) = length (cell v1 b) \<and> s \<le> b))) \<and>
         sorted_wrt (<) boxes"
  using search_branch_cell[OF assms] boxes_sorted by blast

theorem C7_search_branches_on_least_witness:
  "wf_grid (tab blank) \<and>
   reduce_puzzle (tab blank, []) = Inr (PyDict (tab blank), []) \<and>
   (\<exists>b \<in> set boxes. length (cell (tab blank) b) \<noteq> 1) \<and>
   search (tab blank, []) = search_loop (tab blank) ''A1'' ''123456789'' []"
proof -
  have wf: "wf_grid (tab blank)" by (rule wf_grid_tab)
  have red: "reduce_puzzle (tab blank, []) = Inr (PyDict (tab blank), [])" by (rule reduce_blank)
  have a1: "''A1'' \<in> set boxes" by (simp add: in_boxes)
  have c: "cell (tab blank) b = ''123456789''" if "b \<in> set boxes" for b
    using that by (simp add: cell_tab blank_def)
  have ns: "\<exists>b \<in> set boxes. length (cell (tab blank) b) \<noteq> 1"
    using a1 by (intro bexI[of _ "''A1''"]) (simp_all add: c)
  from C7_search_branches_on_least[OF wf red ns] obtain s where
    s: "search (tab blank, []) = search_loop (tab blank) s (cell (tab blank) s) []"
       "s \<in> set boxes"
       "\<forall>b \<in> set boxes. 1 < length (cell (tab blank) b) \<longrightarrow>
          length (cell (tab blank) s) < length (cell (tab blank) b) \<or>
          (length (cell (tab blank) s) = length (cell (tab blank) b) \<and> s \<le> b)"
    and srt: "sorted_wrt (<) boxes" by blast
  from s(3) a1 s(2) have le: "s \<le> ''A1''" by (auto simp: c)
  have "boxes = ''A1'' # tl boxes" by (simp add: boxes_eval)
  with srt have "sorted_wrt (<) (''A1'' # tl boxes)" by simp
  then have "\<forall>y \<in> set (tl boxes). ''A1'' < y" by simp
  moreover from s(2) \<open>boxes = ''A1'' # tl boxes\<close> have "s = ''A1'' \<or> s \<in> set (tl boxes)"
    by (metis set_ConsD)
  ultimately have "''A1'' \<le> s" by auto
  with le have "s = ''A1''" by simp
  with s(1) a1 have "search (tab blank, []) = search_loop (tab blank) ''A1'' ''123456789'' []"
    by (simp add: c)
  with wf red ns show ?thesis by blast
qed

end
